theory Spec2Isabelle
  imports Main "HOL-Library.Char_ord" "HOL-Library.List_Lexorder"
begin

section \<open>Data model (src/crdts.ts, lines 11-91)\<close>

text \<open>
  An identifier is the pair \<open>[agent, seq]\<close>. Agents are strings, compared with the
  lexicographic order on character lists (JavaScript's \<open><\<close> on strings); sequence numbers,
  indices and positions are JavaScript numbers, modelled as unbounded integers. The version
  vector \<open>Record<string, number>\<close> is a partial map; agent names that are inherited
  property names of a JavaScript object are outside the model.
\<close>

type_synonym Id = "string \<times> int"

type_synonym Version = "string \<rightharpoonup> int"

text \<open>
  The union item shape \<open>Item<T>\<close>. The field \<open>id\<close> is named \<open>ident\<close> here, and the
  document's \<open>content\<close> and \<open>length\<close> are \<open>contentD\<close> and \<open>lengthD\<close>. A \<open>null\<close>
  content or origin is \<open>None\<close>.
\<close>

record 'a Item =
  content :: "'a option"
  ident :: Id
  originLeft :: "Id option"
  originRight :: "Id option"
  seq :: int
  insertAfter :: bool
  isDeleted :: bool

record 'a Doc =
  contentD :: "'a Item list"
  version :: Version
  lengthD :: int
  maxSeq :: int

definition newDoc :: "'a Doc" where
  "newDoc = \<lparr>contentD = [], version = Map.empty, lengthD = 0, maxSeq = 0\<rparr>"

text \<open>
  Errors are values. \<open>OutOfOrder\<close> is \<open>Error('Operations out of order')\<close>, \<open>ItemNotFound\<close>
  is \<open>Error('Could not find item')\<close>, \<open>PositionOutOfRange\<close> is
  \<open>Error('past end of the document')\<close>, \<open>AssertionFailed\<close> is a failed \<open>assert\<close>, and
  \<open>TypeError\<close> is a property read on \<open>undefined\<close>. The functions of the source mutate the
  document in place, so a failing call yields the error together with the document as the
  throw left it.
\<close>

datatype error = OutOfOrder | ItemNotFound | PositionOutOfRange | AssertionFailed | TypeError

type_synonym 'a outcome = "(error \<times> 'a Doc) + 'a Doc"

section \<open>Common code and helpers (lines 93-261)\<close>

definition idEq2 :: "Id option \<Rightarrow> string \<Rightarrow> int \<Rightarrow> bool" where
  "idEq2 a agent sq = (case a of None \<Rightarrow> False | Some i \<Rightarrow> fst i = agent \<and> snd i = sq)"

definition idEq :: "Id option \<Rightarrow> Id option \<Rightarrow> bool" where
  "idEq a b = (case (a, b) of
      (None, None) \<Rightarrow> True
    | (Some x, Some y) \<Rightarrow> fst x = fst y \<and> snd x = snd y
    | _ \<Rightarrow> False)"

text \<open>\<open>Array.prototype.findIndex\<close>: the first index whose element satisfies the test, or -1.\<close>

fun findIndex :: "('a \<Rightarrow> bool) \<Rightarrow> 'a list \<Rightarrow> int" where
  "findIndex P [] = -1"
| "findIndex P (x # xs) =
     (if P x then 0 else (let r = findIndex P xs in if r < 0 then -1 else r + 1))"

text \<open>The test both the hint and the scan of \<open>findItem2\<close> apply to an item.\<close>

definition matches :: "bool \<Rightarrow> string \<Rightarrow> int \<Rightarrow> 'a Item \<Rightarrow> bool" where
  "matches atEnd agent sq item =
     ((\<not> atEnd \<and> idEq2 (Some (ident item)) agent sq)
      \<or> (content item \<noteq> None \<and> atEnd \<and> idEq2 (Some (ident item)) agent sq))"

definition findItem2 :: "'a Doc \<Rightarrow> Id option \<Rightarrow> bool \<Rightarrow> int \<Rightarrow> error + int" where
  "findItem2 doc needle atEnd idx_hint =
     (case needle of
        None \<Rightarrow> Inr (-1)
      | Some (agent, sq) \<Rightarrow>
          if idx_hint \<ge> 0 \<and> idx_hint < int (length (contentD doc))
             \<and> matches atEnd agent sq (contentD doc ! nat idx_hint)
          then Inr idx_hint
          else (let idx = findIndex (matches atEnd agent sq) (contentD doc)
                in if idx < 0 then Inl ItemNotFound else Inr idx))"

definition findItem :: "'a Doc \<Rightarrow> Id option \<Rightarrow> int \<Rightarrow> error + int" where
  "findItem doc needle idx_hint = findItem2 doc needle False idx_hint"

text \<open>
  \<open>findItemAtPos\<close>: the loop over \<open>doc.content\<close>, with the index \<open>i\<close> and the remaining
  position as loop state.
\<close>

fun findItemAtPos_loop :: "'a Item list \<Rightarrow> int \<Rightarrow> int \<Rightarrow> bool \<Rightarrow> error + int" where
  "findItemAtPos_loop [] i pos stick_end = (if pos = 0 then Inr i else Inl PositionOutOfRange)"
| "findItemAtPos_loop (item # rest) i pos stick_end =
     (if stick_end \<and> pos = 0 then Inr i
      else if isDeleted item \<or> content item = None then findItemAtPos_loop rest (i + 1) pos stick_end
      else if pos = 0 then Inr i
      else findItemAtPos_loop rest (i + 1) (pos - 1) stick_end)"

definition findItemAtPos :: "'a Doc \<Rightarrow> int \<Rightarrow> bool \<Rightarrow> error + int" where
  "findItemAtPos doc pos stick_end = findItemAtPos_loop (contentD doc) 0 pos stick_end"

text \<open>\<open>doc.content[i]\<close>: \<open>undefined\<close> (here \<open>None\<close>) outside the array.\<close>

definition at :: "'a list \<Rightarrow> int \<Rightarrow> 'a option" where
  "at xs i = (if 0 \<le> i \<and> i < int (length xs) then Some (xs ! nat i) else None)"

text \<open>
  What \<open>localDelete\<close> does to the document it is called on, read as a value (the items
  themselves instead of references to them); \<open>localDelete\<close> on item objects is defined with
  the heap below, and \<open>view_localDelete\<close> relates the two. A property read on a missing item
  throws a TypeError; the document is untouched by then.
\<close>

definition localDeleteV :: "'a Doc \<Rightarrow> string \<Rightarrow> int \<Rightarrow> 'a outcome" where
  "localDeleteV doc agent pos =
     (case findItemAtPos doc pos False of
        Inl e \<Rightarrow> Inl (e, doc)
      | Inr i \<Rightarrow>
          (case at (contentD doc) i of
             None \<Rightarrow> Inl (TypeError, doc)
           | Some item \<Rightarrow>
               if \<not> isDeleted item
               then Inr (doc\<lparr>contentD := (contentD doc)[nat i := item\<lparr>isDeleted := True\<rparr>],
                              lengthD := lengthD doc - 1\<rparr>)
               else Inr doc))"

definition getArray :: "'a Doc \<Rightarrow> 'a list" where
  "getArray doc =
     map (\<lambda>i. the (content i)) (filter (\<lambda>i. \<not> isDeleted i \<and> content i \<noteq> None) (contentD doc))"

definition isInVersion :: "Id option \<Rightarrow> Version \<Rightarrow> bool" where
  "isInVersion i v =
     (case i of
        None \<Rightarrow> True
      | Some (agent, sq) \<Rightarrow> (case v agent of None \<Rightarrow> False | Some s \<Rightarrow> s \<ge> sq))"

definition canInsertNow :: "'a Item \<Rightarrow> 'a Doc \<Rightarrow> bool" where
  "canInsertNow op doc =
     (\<not> isInVersion (Some (ident op)) (version doc)
      \<and> (snd (ident op) = 0 \<or> isInVersion (Some (fst (ident op), snd (ident op) - 1)) (version doc))
      \<and> isInVersion (originLeft op) (version doc)
      \<and> isInVersion (originRight op) (version doc))"

text \<open>\<open>Array.prototype.splice(start, 0, x)\<close>, with JavaScript's clamping of \<open>start\<close>.\<close>

definition splice :: "int \<Rightarrow> 'a \<Rightarrow> 'a list \<Rightarrow> 'a list" where
  "splice start x xs =
     (let len = int (length xs);
          k = (if start < 0 then max (len + start) 0 else min start len)
      in take (nat k) xs @ [x] @ drop (nat k) xs)"

section \<open>Integration, per algorithm (lines 288-853)\<close>

text \<open>The precondition shared by every integrate: \<open>doc.version[agent] ?? -1\<close>.\<close>

definition lastSeenOf :: "'a Doc \<Rightarrow> string \<Rightarrow> int" where
  "lastSeenOf doc agent = (case version doc agent of None \<Rightarrow> -1 | Some s \<Rightarrow> s)"

definition setVersion :: "'a Doc \<Rightarrow> Id \<Rightarrow> 'a Doc" where
  "setVersion doc i = doc\<lparr>version := (version doc)(fst i \<mapsto> snd i)\<rparr>"

text \<open>\<open>x.originRight == null ? doc.content.length : findItem(doc, x.originRight, idx_hint)\<close>\<close>

definition findRight :: "'a Doc \<Rightarrow> Id option \<Rightarrow> int \<Rightarrow> error + int" where
  "findRight doc r idx_hint =
     (case r of None \<Rightarrow> Inr (int (length (contentD doc))) | Some x \<Rightarrow> findItem doc (Some x) idx_hint)"

text \<open>The last two statements of the Yjs-style and Automerge integrates.\<close>

definition commitItem :: "'a Doc \<Rightarrow> int \<Rightarrow> 'a Item \<Rightarrow> 'a Doc" where
  "commitItem doc destIdx newItem =
     doc\<lparr>contentD := splice destIdx newItem (contentD doc),
         lengthD := (if \<not> isDeleted newItem then lengthD doc + 1 else lengthD doc)\<rparr>"

subsection \<open>YjsMod (lines 293-412)\<close>

text \<open>
  The scanning loop \<open>for (let i = destIdx; ; i++)\<close>, with \<open>i\<close>, \<open>destIdx\<close> and \<open>scanning\<close>
  as its state; the result is the \<open>destIdx\<close> the loop leaves.
\<close>

function scanYjsMod ::
  "'a Doc \<Rightarrow> 'a Item \<Rightarrow> int \<Rightarrow> int \<Rightarrow> int \<Rightarrow> int \<Rightarrow> int \<Rightarrow> bool \<Rightarrow> error + int" where
  "scanYjsMod doc newItem idx_hint left right i destIdx scanning =
     (let destIdx' = (if \<not> scanning then i else destIdx) in
      if i = int (length (contentD doc)) then Inr destIdx'
      else if i = right then Inr destIdx'
      else (case at (contentD doc) i of
          None \<Rightarrow> Inl TypeError
        | Some other \<Rightarrow>
           (case findItem doc (originLeft other) (idx_hint - 1) of
              Inl e \<Rightarrow> Inl e
            | Inr oleft \<Rightarrow>
               (case findRight doc (originRight other) idx_hint of
                  Inl e \<Rightarrow> Inl e
                | Inr oright \<Rightarrow>
                   if oleft < left then Inr destIdx'
                   else if oleft = left then
                     (if oright < right then
                        scanYjsMod doc newItem idx_hint left right (i + 1) destIdx' True
                      else if oright = right then
                        (if fst (ident newItem) < fst (ident other) then Inr destIdx'
                         else scanYjsMod doc newItem idx_hint left right (i + 1) destIdx' False)
                      else scanYjsMod doc newItem idx_hint left right (i + 1) destIdx' False)
                   else scanYjsMod doc newItem idx_hint left right (i + 1) destIdx' scanning))))"
  by pat_completeness auto
termination
  by (relation "measure (\<lambda>(doc, newItem, idx_hint, left, right, i, destIdx, scanning).
        nat (int (length (contentD doc)) - i))")
     (auto simp: at_def split: if_splits)

declare scanYjsMod.simps [simp del]

definition integrateYjsMod :: "'a Doc \<Rightarrow> 'a Item \<Rightarrow> int \<Rightarrow> 'a outcome" where
  "integrateYjsMod doc newItem idx_hint =
     (if snd (ident newItem) \<noteq> lastSeenOf doc (fst (ident newItem)) + 1 then Inl (OutOfOrder, doc)
      else let doc1 = setVersion doc (ident newItem) in
        (case findItem doc1 (originLeft newItem) (idx_hint - 1) of
           Inl e \<Rightarrow> Inl (e, doc1)
         | Inr left \<Rightarrow>
            (case findRight doc1 (originRight newItem) idx_hint of
               Inl e \<Rightarrow> Inl (e, doc1)
             | Inr right \<Rightarrow>
                (case scanYjsMod doc1 newItem idx_hint left right (left + 1) (left + 1) False of
                   Inl e \<Rightarrow> Inl (e, doc1)
                 | Inr destIdx \<Rightarrow> Inr (commitItem doc1 destIdx newItem)))))"

subsection \<open>Yjs (lines 631-680)\<close>

function scanYjs ::
  "'a Doc \<Rightarrow> 'a Item \<Rightarrow> int \<Rightarrow> int \<Rightarrow> int \<Rightarrow> int \<Rightarrow> int \<Rightarrow> bool \<Rightarrow> error + int" where
  "scanYjs doc newItem idx_hint left right i destIdx scanning =
     (let destIdx' = (if \<not> scanning then i else destIdx) in
      if i = int (length (contentD doc)) then Inr destIdx'
      else if i = right then Inr destIdx'
      else (case at (contentD doc) i of
          None \<Rightarrow> Inl TypeError
        | Some other \<Rightarrow>
           (case findItem doc (originLeft other) (idx_hint - 1) of
              Inl e \<Rightarrow> Inl e
            | Inr oleft \<Rightarrow>
               (case findRight doc (originRight other) idx_hint of
                  Inl e \<Rightarrow> Inl e
                | Inr oright \<Rightarrow>
                   if oleft < left then Inr destIdx'
                   else if oleft = left then
                     (if fst (ident newItem) > fst (ident other) then
                        scanYjs doc newItem idx_hint left right (i + 1) destIdx' False
                      else if oright = right then Inr destIdx'
                      else scanYjs doc newItem idx_hint left right (i + 1) destIdx' True)
                   else scanYjs doc newItem idx_hint left right (i + 1) destIdx' scanning))))"
  by pat_completeness auto
termination
  by (relation "measure (\<lambda>(doc, newItem, idx_hint, left, right, i, destIdx, scanning).
        nat (int (length (contentD doc)) - i))")
     (auto simp: at_def split: if_splits)

declare scanYjs.simps [simp del]

definition integrateYjs :: "'a Doc \<Rightarrow> 'a Item \<Rightarrow> int \<Rightarrow> 'a outcome" where
  "integrateYjs doc newItem idx_hint =
     (if snd (ident newItem) \<noteq> lastSeenOf doc (fst (ident newItem)) + 1 then Inl (OutOfOrder, doc)
      else let doc1 = setVersion doc (ident newItem) in
        (case findItem doc1 (originLeft newItem) (idx_hint - 1) of
           Inl e \<Rightarrow> Inl (e, doc1)
         | Inr left \<Rightarrow>
            (case findRight doc1 (originRight newItem) idx_hint of
               Inl e \<Rightarrow> Inl (e, doc1)
             | Inr right \<Rightarrow>
                (case scanYjs doc1 newItem idx_hint left right (left + 1) (left + 1) False of
                   Inl e \<Rightarrow> Inl (e, doc1)
                 | Inr destIdx \<Rightarrow> Inr (commitItem doc1 destIdx newItem)))))"

subsection \<open>Automerge (lines 682-814)\<close>

text \<open>
  The loop \<open>for (; destIdx < doc.content.length; destIdx++)\<close> with \<open>destIdx\<close> and
  \<open>lostConflict\<close> as its state. The first test is the fast path of lines 719-727.
\<close>

function scanAutomerge :: "'a Doc \<Rightarrow> 'a Item \<Rightarrow> int \<Rightarrow> int \<Rightarrow> int \<Rightarrow> bool \<Rightarrow> error + int" where
  "scanAutomerge doc newItem idx_hint parent destIdx lostConflict =
     (if destIdx < int (length (contentD doc)) then
        (case at (contentD doc) destIdx of
           None \<Rightarrow> Inl TypeError
         | Some other \<Rightarrow>
            if seq newItem > seq other then Inr destIdx
            else (case findItem doc (originLeft other) (idx_hint - 1) of
               Inl e \<Rightarrow> Inl e
             | Inr oparent \<Rightarrow>
                if oparent < parent then Inr destIdx
                else if oparent = parent then
                  (if seq newItem > seq other then Inr destIdx
                   else if seq newItem = seq other then
                     (if fst (ident newItem) < fst (ident other) then Inr destIdx
                      else scanAutomerge doc newItem idx_hint parent (destIdx + 1) True)
                   else scanAutomerge doc newItem idx_hint parent (destIdx + 1) True)
                else if \<not> lostConflict then Inl AssertionFailed
                else scanAutomerge doc newItem idx_hint parent (destIdx + 1) lostConflict))
      else Inr destIdx)"
  by pat_completeness auto
termination
  by (relation "measure (\<lambda>(doc, newItem, idx_hint, parent, destIdx, lostConflict).
        nat (int (length (contentD doc)) - destIdx))")
     (auto simp: at_def split: if_splits)

declare scanAutomerge.simps [simp del]

definition integrateAutomerge :: "'a Doc \<Rightarrow> 'a Item \<Rightarrow> int \<Rightarrow> 'a outcome" where
  "integrateAutomerge doc newItem idx_hint =
     (if \<not> seq newItem \<ge> 0 then Inl (AssertionFailed, doc)
      else if snd (ident newItem) \<noteq> lastSeenOf doc (fst (ident newItem)) + 1 then Inl (OutOfOrder, doc)
      else let doc1 = setVersion doc (ident newItem) in
        (case findItem doc1 (originLeft newItem) (idx_hint - 1) of
           Inl e \<Rightarrow> Inl (e, doc1)
         | Inr parent \<Rightarrow>
            (case scanAutomerge doc1 newItem idx_hint parent (parent + 1) False of
               Inl e \<Rightarrow> Inl (e, doc1)
             | Inr destIdx \<Rightarrow>
                (let doc2 = (if seq newItem > maxSeq doc1 then doc1\<lparr>maxSeq := seq newItem\<rparr> else doc1)
                 in Inr (commitItem doc2 destIdx newItem)))))"

subsection \<open>Sync9 (lines 817-853)\<close>

function scanSync9 :: "'a Doc \<Rightarrow> 'a Item \<Rightarrow> int \<Rightarrow> int \<Rightarrow> int \<Rightarrow> error + int" where
  "scanSync9 doc newItem idx_hint parentIdx destIdx =
     (if destIdx < int (length (contentD doc)) then
        (case at (contentD doc) destIdx of
           None \<Rightarrow> Inl TypeError
         | Some other \<Rightarrow>
            (case findItem2 doc (originLeft other) (insertAfter other) (idx_hint - 1) of
               Inl e \<Rightarrow> Inl e
             | Inr oparentIdx \<Rightarrow>
                if oparentIdx < parentIdx then Inr destIdx
                else if oparentIdx = parentIdx then
                  (if fst (ident newItem) < fst (ident other) then Inr destIdx
                   else scanSync9 doc newItem idx_hint parentIdx (destIdx + 1))
                else scanSync9 doc newItem idx_hint parentIdx (destIdx + 1)))
      else Inr destIdx)"
  by pat_completeness auto
termination
  by (relation "measure (\<lambda>(doc, newItem, idx_hint, parentIdx, destIdx).
        nat (int (length (contentD doc)) - destIdx))")
     (auto simp: at_def split: if_splits)

declare scanSync9.simps [simp del]

definition commitSync9 :: "'a Doc \<Rightarrow> int \<Rightarrow> 'a Item \<Rightarrow> 'a Doc" where
  "commitSync9 doc destIdx newItem =
     doc\<lparr>contentD := splice destIdx newItem (contentD doc),
         lengthD := (if \<not> isDeleted newItem \<and> content newItem \<noteq> None
                     then lengthD doc + 1 else lengthD doc)\<rparr>"

definition integrateSync9 :: "'a Doc \<Rightarrow> 'a Item \<Rightarrow> int \<Rightarrow> 'a outcome" where
  "integrateSync9 doc newItem idx_hint =
     (if snd (ident newItem) \<noteq> lastSeenOf doc (fst (ident newItem)) + 1 then Inl (OutOfOrder, doc)
      else let doc1 = setVersion doc (ident newItem) in
        (case findItem2 doc1 (originLeft newItem) (insertAfter newItem) (idx_hint - 1) of
           Inl e \<Rightarrow> Inl (e, doc1)
         | Inr parentIdx \<Rightarrow>
            if parentIdx \<ge> 0 \<and> originLeft newItem \<noteq> None \<and> \<not> insertAfter newItem
            then (case at (contentD doc1) parentIdx of
                None \<Rightarrow> Inl (TypeError, doc1)
              | Some parent \<Rightarrow>
                 if content parent \<noteq> None
                 then Inr (commitSync9
                        (doc1\<lparr>contentD := splice parentIdx (parent\<lparr>content := None\<rparr>) (contentD doc1)\<rparr>)
                        (parentIdx + 1) newItem)
                 else (case scanSync9 doc1 newItem idx_hint parentIdx (parentIdx + 1) of
                     Inl e \<Rightarrow> Inl (e, doc1)
                   | Inr destIdx \<Rightarrow> Inr (commitSync9 doc1 destIdx newItem)))
            else (case scanSync9 doc1 newItem idx_hint parentIdx (parentIdx + 1) of
                Inl e \<Rightarrow> Inl (e, doc1)
              | Inr destIdx \<Rightarrow> Inr (commitSync9 doc1 destIdx newItem))))"

subsection \<open>The algorithm selector (lines 855-887)\<close>

datatype Algorithm = yjs | yjsMod | automerge | sync9

definition integrate :: "Algorithm \<Rightarrow> 'a Doc \<Rightarrow> 'a Item \<Rightarrow> int \<Rightarrow> 'a outcome" where
  "integrate alg =
     (case alg of yjs \<Rightarrow> integrateYjs | yjsMod \<Rightarrow> integrateYjsMod
      | automerge \<Rightarrow> integrateAutomerge | sync9 \<Rightarrow> integrateSync9)"

section \<open>Local operations (lines 169-213)\<close>

text \<open>\<open>doc.content[i]?.id ?? null\<close>\<close>

definition idAt :: "'a Doc \<Rightarrow> int \<Rightarrow> Id option" where
  "idAt doc i = map_option ident (at (contentD doc) i)"

definition localInsert :: "Algorithm \<Rightarrow> 'a Doc \<Rightarrow> string \<Rightarrow> int \<Rightarrow> 'a \<Rightarrow> 'a outcome" where
  "localInsert this doc agent pos c =
     (case findItemAtPos doc pos False of
        Inl e \<Rightarrow> Inl (e, doc)
      | Inr i \<Rightarrow>
          integrate this doc
            \<lparr>content = Some c,
             ident = (agent, lastSeenOf doc agent + 1),
             originLeft = idAt doc (i - 1),
             originRight = idAt doc i,
             seq = maxSeq doc + 1,
             insertAfter = True,
             isDeleted = False\<rparr> i)"

text \<open>
  The loop \<open>for (;; i++)\<close> of \<open>localInsertSync9\<close>, with \<open>i\<close>, \<open>parentIdBase\<close>,
  \<open>originLeft\<close> and \<open>insertAfter\<close> as its state, all of which it returns.
\<close>

function sync9Anchor ::
  "'a Doc \<Rightarrow> int \<Rightarrow> Id option \<Rightarrow> Id option \<Rightarrow> bool \<Rightarrow> int \<times> Id option \<times> bool" where
  "sync9Anchor doc i parentIdBase oLeft insAfter =
     (case at (contentD doc) i of
        None \<Rightarrow> (i, oLeft, insAfter)
      | Some nextItem \<Rightarrow>
          if \<not> idEq (originLeft nextItem) parentIdBase then (i, oLeft, insAfter)
          else if content nextItem \<noteq> None then (i, Some (ident nextItem), False)
          else sync9Anchor doc (i + 1) (Some (ident nextItem)) (Some (ident nextItem)) False)"
  by pat_completeness auto
termination
  by (relation "measure (\<lambda>(doc, i, parentIdBase, oLeft, insAfter).
        nat (int (length (contentD doc)) - i))")
     (auto simp: at_def split: if_splits)

declare sync9Anchor.simps [simp del]

definition localInsertSync9 :: "Algorithm \<Rightarrow> 'a Doc \<Rightarrow> string \<Rightarrow> int \<Rightarrow> 'a \<Rightarrow> 'a outcome" where
  "localInsertSync9 this doc agent pos c =
     (case findItemAtPos doc pos True of
        Inl e \<Rightarrow> Inl (e, doc)
      | Inr i0 \<Rightarrow>
          (case sync9Anchor doc i0 (idAt doc (i0 - 1)) (idAt doc (i0 - 1)) True of
             (i, oLeft, insAfter) \<Rightarrow>
               integrate this doc
                 \<lparr>content = Some c,
                  ident = (agent, lastSeenOf doc agent + 1),
                  originLeft = oLeft,
                  originRight = None,
                  seq = 0,
                  insertAfter = insAfter,
                  isDeleted = False\<rparr> i))"

text \<open>The \<open>localInsert\<close> member of each algorithm object.\<close>

definition localInsertOf :: "Algorithm \<Rightarrow> 'a Doc \<Rightarrow> string \<Rightarrow> int \<Rightarrow> 'a \<Rightarrow> 'a outcome" where
  "localInsertOf alg = (case alg of sync9 \<Rightarrow> localInsertSync9 alg | _ \<Rightarrow> localInsert alg)"

section \<open>Merge, on one document read as a value\<close>

text \<open>
  What the loops of \<open>mergeInto\<close> do to \<open>dest\<close>, read as a value, with the items of \<open>src\<close>
  instead of references to them; \<open>mergeInto\<close> on item objects is defined with the heap below,
  and \<open>view_mergeInto\<close> relates the two. One pass of the inner \<open>for\<close> loop over \<open>missing\<close>
  returns the document, the array with the integrated entries set to \<open>null\<close>, and the counter
  \<open>mergedOnThisPass\<close>.
\<close>

fun mergePassV ::
  "Algorithm \<Rightarrow> 'a Doc \<Rightarrow> 'a Item option list \<Rightarrow> (error \<times> 'a Doc) + ('a Doc \<times> 'a Item option list \<times> nat)" where
  "mergePassV alg dest [] = Inr (dest, [], 0)"
| "mergePassV alg dest (None # rest) =
     (case mergePassV alg dest rest of
        Inl e \<Rightarrow> Inl e
      | Inr (dest', rest', n) \<Rightarrow> Inr (dest', None # rest', n))"
| "mergePassV alg dest (Some op # rest) =
     (if \<not> canInsertNow op dest then
        (case mergePassV alg dest rest of
           Inl e \<Rightarrow> Inl e
         | Inr (dest', rest', n) \<Rightarrow> Inr (dest', Some op # rest', n))
      else (case integrate alg dest op (-1) of
          Inl e \<Rightarrow> Inl e
        | Inr dest1 \<Rightarrow>
           (case mergePassV alg dest1 rest of
              Inl e \<Rightarrow> Inl e
            | Inr (dest', rest', n) \<Rightarrow> Inr (dest', None # rest', n + 1))))"

text \<open>The outer loop \<open>while (remaining > 0)\<close> with its \<open>assert(mergedOnThisPass)\<close>.\<close>

function mergeLoopV :: "Algorithm \<Rightarrow> 'a Doc \<Rightarrow> 'a Item option list \<Rightarrow> int \<Rightarrow> 'a outcome" where
  "mergeLoopV alg dest missing remaining =
     (if remaining > 0 then
        (case mergePassV alg dest missing of
           Inl e \<Rightarrow> Inl e
         | Inr (dest', missing', mergedOnThisPass) \<Rightarrow>
             if mergedOnThisPass = 0 then Inl (AssertionFailed, dest')
             else mergeLoopV alg dest' missing' (remaining - int mergedOnThisPass))
      else Inr dest)"
  by pat_completeness auto
termination
  by (relation "measure (\<lambda>(alg, dest, missing, remaining). nat remaining)") auto

declare mergeLoopV.simps [simp del]

definition mergeIntoV :: "Algorithm \<Rightarrow> 'a Doc \<Rightarrow> 'a Doc \<Rightarrow> 'a outcome" where
  "mergeIntoV alg dest src =
     (let missing = map Some (filter (\<lambda>op. content op \<noteq> None
                       \<and> \<not> isInVersion (Some (ident op)) (version dest)) (contentD src))
      in mergeLoopV alg dest missing (int (length missing)))"

section \<open>Item objects shared between documents\<close>

text \<open>
  The documents of the source hold references to item objects. \<open>integrate\<close> splices the
  object it is given into \<open>doc.content\<close> (line 410 and its siblings), \<open>mergeInto\<close> hands it
  the item objects of \<open>src\<close> (lines 267 and 277), and \<open>localDelete\<close> sets \<open>isDeleted\<close> on the
  object itself (line 219): after a merge two documents hold the same object, and a delete
  through one of them is seen by the other. The heap is the list of the item objects created
  so far, an address is an index into it, and a document holds addresses. \<open>view\<close> reads a
  document through the heap; it is the document the definitions above take, so the scans and
  lookups are used on the view as they are.
\<close>

type_synonym addr = nat

type_synonym 'a heap = "'a Item list"

record RDoc =
  refs :: "addr list"
  versionR :: Version
  lengthR :: int
  maxSeqR :: int

definition newRDoc :: RDoc where
  "newRDoc = \<lparr>refs = [], versionR = Map.empty, lengthR = 0, maxSeqR = 0\<rparr>"

definition view :: "'a heap \<Rightarrow> RDoc \<Rightarrow> 'a Doc" where
  "view h doc = \<lparr>contentD = map (\<lambda>a. h ! a) (refs doc), version = versionR doc,
                 lengthD = lengthR doc, maxSeq = maxSeqR doc\<rparr>"

text \<open>A failing call yields the error with the heap and the document as the throw left them.\<close>

type_synonym 'a outcomeR = "(error \<times> 'a heap \<times> RDoc) + ('a heap \<times> RDoc)"

text \<open>What a call on references shows of the document it worked on.\<close>

definition viewOut :: "'a outcomeR \<Rightarrow> 'a outcome" where
  "viewOut r = (case r of Inl (e, h, d) \<Rightarrow> Inl (e, view h d) | Inr (h, d) \<Rightarrow> Inr (view h d))"

text \<open>Every reference of the document is to an object of the heap.\<close>

definition valid :: "'a heap \<Rightarrow> RDoc \<Rightarrow> bool" where
  "valid h doc = (\<forall>a \<in> set (refs doc). a < length h)"

subsection \<open>integrate, with \<open>newItem\<close> the object at an address\<close>

definition setVersionR :: "RDoc \<Rightarrow> Id \<Rightarrow> RDoc" where
  "setVersionR doc i = doc\<lparr>versionR := (versionR doc)(fst i \<mapsto> snd i)\<rparr>"

text \<open>\<open>doc.content.splice(destIdx, 0, newItem); if (!newItem.isDeleted) doc.length += 1\<close>\<close>

definition commitRef :: "'a heap \<Rightarrow> RDoc \<Rightarrow> int \<Rightarrow> addr \<Rightarrow> RDoc" where
  "commitRef h doc destIdx a =
     doc\<lparr>refs := splice destIdx a (refs doc),
         lengthR := (if \<not> isDeleted (h ! a) then lengthR doc + 1 else lengthR doc)\<rparr>"

definition integrateYjsModRef :: "'a heap \<Rightarrow> RDoc \<Rightarrow> addr \<Rightarrow> int \<Rightarrow> 'a outcomeR" where
  "integrateYjsModRef h doc a idx_hint =
     (let newItem = h ! a in
      if snd (ident newItem) \<noteq> lastSeenOf (view h doc) (fst (ident newItem)) + 1
      then Inl (OutOfOrder, h, doc)
      else let doc1 = setVersionR doc (ident newItem) in
        (case findItem (view h doc1) (originLeft newItem) (idx_hint - 1) of
           Inl e \<Rightarrow> Inl (e, h, doc1)
         | Inr left \<Rightarrow>
            (case findRight (view h doc1) (originRight newItem) idx_hint of
               Inl e \<Rightarrow> Inl (e, h, doc1)
             | Inr right \<Rightarrow>
                (case scanYjsMod (view h doc1) newItem idx_hint left right (left + 1) (left + 1) False of
                   Inl e \<Rightarrow> Inl (e, h, doc1)
                 | Inr destIdx \<Rightarrow> Inr (h, commitRef h doc1 destIdx a)))))"

definition integrateYjsRef :: "'a heap \<Rightarrow> RDoc \<Rightarrow> addr \<Rightarrow> int \<Rightarrow> 'a outcomeR" where
  "integrateYjsRef h doc a idx_hint =
     (let newItem = h ! a in
      if snd (ident newItem) \<noteq> lastSeenOf (view h doc) (fst (ident newItem)) + 1
      then Inl (OutOfOrder, h, doc)
      else let doc1 = setVersionR doc (ident newItem) in
        (case findItem (view h doc1) (originLeft newItem) (idx_hint - 1) of
           Inl e \<Rightarrow> Inl (e, h, doc1)
         | Inr left \<Rightarrow>
            (case findRight (view h doc1) (originRight newItem) idx_hint of
               Inl e \<Rightarrow> Inl (e, h, doc1)
             | Inr right \<Rightarrow>
                (case scanYjs (view h doc1) newItem idx_hint left right (left + 1) (left + 1) False of
                   Inl e \<Rightarrow> Inl (e, h, doc1)
                 | Inr destIdx \<Rightarrow> Inr (h, commitRef h doc1 destIdx a)))))"

definition integrateAutomergeRef :: "'a heap \<Rightarrow> RDoc \<Rightarrow> addr \<Rightarrow> int \<Rightarrow> 'a outcomeR" where
  "integrateAutomergeRef h doc a idx_hint =
     (let newItem = h ! a in
      if \<not> seq newItem \<ge> 0 then Inl (AssertionFailed, h, doc)
      else if snd (ident newItem) \<noteq> lastSeenOf (view h doc) (fst (ident newItem)) + 1
      then Inl (OutOfOrder, h, doc)
      else let doc1 = setVersionR doc (ident newItem) in
        (case findItem (view h doc1) (originLeft newItem) (idx_hint - 1) of
           Inl e \<Rightarrow> Inl (e, h, doc1)
         | Inr parent \<Rightarrow>
            (case scanAutomerge (view h doc1) newItem idx_hint parent (parent + 1) False of
               Inl e \<Rightarrow> Inl (e, h, doc1)
             | Inr destIdx \<Rightarrow>
                (let doc2 = (if seq newItem > maxSeqR doc1 then doc1\<lparr>maxSeqR := seq newItem\<rparr> else doc1)
                 in Inr (h, commitRef h doc2 destIdx a)))))"

text \<open>
  The Sync9 split creates one new object, \<open>{...doc.content[parentIdx], content: null}\<close>; it
  gets the next free address.
\<close>

definition commitSync9Ref :: "'a heap \<Rightarrow> RDoc \<Rightarrow> int \<Rightarrow> addr \<Rightarrow> RDoc" where
  "commitSync9Ref h doc destIdx a =
     doc\<lparr>refs := splice destIdx a (refs doc),
         lengthR := (if \<not> isDeleted (h ! a) \<and> content (h ! a) \<noteq> None
                     then lengthR doc + 1 else lengthR doc)\<rparr>"

definition integrateSync9Ref :: "'a heap \<Rightarrow> RDoc \<Rightarrow> addr \<Rightarrow> int \<Rightarrow> 'a outcomeR" where
  "integrateSync9Ref h doc a idx_hint =
     (let newItem = h ! a in
      if snd (ident newItem) \<noteq> lastSeenOf (view h doc) (fst (ident newItem)) + 1
      then Inl (OutOfOrder, h, doc)
      else let doc1 = setVersionR doc (ident newItem) in
        (case findItem2 (view h doc1) (originLeft newItem) (insertAfter newItem) (idx_hint - 1) of
           Inl e \<Rightarrow> Inl (e, h, doc1)
         | Inr parentIdx \<Rightarrow>
            if parentIdx \<ge> 0 \<and> originLeft newItem \<noteq> None \<and> \<not> insertAfter newItem
            then (case at (refs doc1) parentIdx of
                None \<Rightarrow> Inl (TypeError, h, doc1)
              | Some p \<Rightarrow>
                 if content (h ! p) \<noteq> None
                 then (let h1 = h @ [(h ! p)\<lparr>content := None\<rparr>];
                           doc2 = doc1\<lparr>refs := splice parentIdx (length h) (refs doc1)\<rparr>
                       in Inr (h1, commitSync9Ref h1 doc2 (parentIdx + 1) a))
                 else (case scanSync9 (view h doc1) newItem idx_hint parentIdx (parentIdx + 1) of
                     Inl e \<Rightarrow> Inl (e, h, doc1)
                   | Inr destIdx \<Rightarrow> Inr (h, commitSync9Ref h doc1 destIdx a)))
            else (case scanSync9 (view h doc1) newItem idx_hint parentIdx (parentIdx + 1) of
                Inl e \<Rightarrow> Inl (e, h, doc1)
              | Inr destIdx \<Rightarrow> Inr (h, commitSync9Ref h doc1 destIdx a))))"

definition integrateRef :: "Algorithm \<Rightarrow> 'a heap \<Rightarrow> RDoc \<Rightarrow> addr \<Rightarrow> int \<Rightarrow> 'a outcomeR" where
  "integrateRef alg =
     (case alg of yjs \<Rightarrow> integrateYjsRef | yjsMod \<Rightarrow> integrateYjsModRef
      | automerge \<Rightarrow> integrateAutomergeRef | sync9 \<Rightarrow> integrateSync9Ref)"

subsection \<open>Local operations (lines 169-222)\<close>

text \<open>\<open>localInsert\<close> and \<open>localInsertSync9\<close> create the item object and integrate it.\<close>

definition localInsertRef :: "Algorithm \<Rightarrow> 'a heap \<Rightarrow> RDoc \<Rightarrow> string \<Rightarrow> int \<Rightarrow> 'a \<Rightarrow> 'a outcomeR" where
  "localInsertRef this h doc agent pos c =
     (case findItemAtPos (view h doc) pos False of
        Inl e \<Rightarrow> Inl (e, h, doc)
      | Inr i \<Rightarrow>
          integrateRef this
            (h @ [\<lparr>content = Some c,
                   ident = (agent, lastSeenOf (view h doc) agent + 1),
                   originLeft = idAt (view h doc) (i - 1),
                   originRight = idAt (view h doc) i,
                   seq = maxSeqR doc + 1,
                   insertAfter = True,
                   isDeleted = False\<rparr>])
            doc (length h) i)"

definition localInsertSync9Ref :: "Algorithm \<Rightarrow> 'a heap \<Rightarrow> RDoc \<Rightarrow> string \<Rightarrow> int \<Rightarrow> 'a \<Rightarrow> 'a outcomeR" where
  "localInsertSync9Ref this h doc agent pos c =
     (case findItemAtPos (view h doc) pos True of
        Inl e \<Rightarrow> Inl (e, h, doc)
      | Inr i0 \<Rightarrow>
          (case sync9Anchor (view h doc) i0 (idAt (view h doc) (i0 - 1)) (idAt (view h doc) (i0 - 1)) True of
             (i, oLeft, insAfter) \<Rightarrow>
               integrateRef this
                 (h @ [\<lparr>content = Some c,
                        ident = (agent, lastSeenOf (view h doc) agent + 1),
                        originLeft = oLeft,
                        originRight = None,
                        seq = 0,
                        insertAfter = insAfter,
                        isDeleted = False\<rparr>])
                 doc (length h) i))"

definition localInsertOfRef :: "Algorithm \<Rightarrow> 'a heap \<Rightarrow> RDoc \<Rightarrow> string \<Rightarrow> int \<Rightarrow> 'a \<Rightarrow> 'a outcomeR" where
  "localInsertOfRef alg = (case alg of sync9 \<Rightarrow> localInsertSync9Ref alg | _ \<Rightarrow> localInsertRef alg)"

text \<open>
  \<open>localDelete\<close>: \<open>item\<close> is the object \<open>doc.content[i]\<close>; \<open>item.isDeleted = true\<close> changes the
  object in the heap, for every document that holds it, and only \<open>doc.length\<close> is decremented.
  A property read on a missing item throws a TypeError; nothing is changed by then.
\<close>

definition localDelete :: "'a heap \<Rightarrow> RDoc \<Rightarrow> string \<Rightarrow> int \<Rightarrow> 'a outcomeR" where
  "localDelete h doc agent pos =
     (case findItemAtPos (view h doc) pos False of
        Inl e \<Rightarrow> Inl (e, h, doc)
      | Inr i \<Rightarrow>
          (case at (refs doc) i of
             None \<Rightarrow> Inl (TypeError, h, doc)
           | Some a \<Rightarrow>
               if \<not> isDeleted (h ! a)
               then Inr (h[a := (h ! a)\<lparr>isDeleted := True\<rparr>], doc\<lparr>lengthR := lengthR doc - 1\<rparr>)
               else Inr (h, doc)))"

subsection \<open>mergeInto (lines 263-285)\<close>

text \<open>
  \<open>missing\<close> is an array of references to the item objects of \<open>src\<close>, and \<open>integrate\<close> gets
  these references: \<open>dest\<close> ends up holding the objects \<open>src\<close> holds. One pass of the inner
  \<open>for\<close> loop returns the heap, the document, the array with the integrated entries set to
  \<open>null\<close>, and the counter \<open>mergedOnThisPass\<close>; \<open>integrate\<close> is called without a hint, so with
  the default -1.
\<close>

fun mergePass ::
  "Algorithm \<Rightarrow> 'a heap \<Rightarrow> RDoc \<Rightarrow> addr option list
     \<Rightarrow> (error \<times> 'a heap \<times> RDoc) + ('a heap \<times> RDoc \<times> addr option list \<times> nat)" where
  "mergePass alg h dest [] = Inr (h, dest, [], 0)"
| "mergePass alg h dest (None # rest) =
     (case mergePass alg h dest rest of
        Inl e \<Rightarrow> Inl e
      | Inr (h', dest', rest', n) \<Rightarrow> Inr (h', dest', None # rest', n))"
| "mergePass alg h dest (Some a # rest) =
     (if \<not> canInsertNow (h ! a) (view h dest) then
        (case mergePass alg h dest rest of
           Inl e \<Rightarrow> Inl e
         | Inr (h', dest', rest', n) \<Rightarrow> Inr (h', dest', Some a # rest', n))
      else (case integrateRef alg h dest a (-1) of
          Inl e \<Rightarrow> Inl e
        | Inr (h1, dest1) \<Rightarrow>
           (case mergePass alg h1 dest1 rest of
              Inl e \<Rightarrow> Inl e
            | Inr (h', dest', rest', n) \<Rightarrow> Inr (h', dest', None # rest', n + 1))))"

text \<open>The outer loop \<open>while (remaining > 0)\<close> with its \<open>assert(mergedOnThisPass)\<close>.\<close>

function mergeLoop :: "Algorithm \<Rightarrow> 'a heap \<Rightarrow> RDoc \<Rightarrow> addr option list \<Rightarrow> int \<Rightarrow> 'a outcomeR" where
  "mergeLoop alg h dest missing remaining =
     (if remaining > 0 then
        (case mergePass alg h dest missing of
           Inl e \<Rightarrow> Inl e
         | Inr (h', dest', missing', mergedOnThisPass) \<Rightarrow>
             if mergedOnThisPass = 0 then Inl (AssertionFailed, h', dest')
             else mergeLoop alg h' dest' missing' (remaining - int mergedOnThisPass))
      else Inr (h, dest))"
  by pat_completeness auto
termination
  by (relation "measure (\<lambda>(alg, h, dest, missing, remaining). nat remaining)") auto

declare mergeLoop.simps [simp del]

definition mergeInto :: "Algorithm \<Rightarrow> 'a heap \<Rightarrow> RDoc \<Rightarrow> RDoc \<Rightarrow> 'a outcomeR" where
  "mergeInto alg h dest src =
     (let missing = map Some (filter (\<lambda>a. content (h ! a) \<noteq> None
                       \<and> \<not> isInVersion (Some (ident (h ! a))) (versionR dest)) (refs src))
      in mergeLoop alg h dest missing (int (length missing)))"

section \<open>Notions used by the properties\<close>

text \<open>An item as the tests build it (\<open>makeItem\<close>): present content, not deleted.\<close>

definition makeItem :: "'a \<Rightarrow> Id \<Rightarrow> Id option \<Rightarrow> Id option \<Rightarrow> 'a Item" where
  "makeItem c i l r =
     \<lparr>content = Some c, ident = i, originLeft = l, originRight = r,
      seq = 0, insertAfter = True, isDeleted = False\<rparr>"

text \<open>
  The items \<open>findItem2\<close> can match at all: every item when \<open>atEnd\<close> is false, the items
  with content when it is true.
\<close>

definition eligible :: "bool \<Rightarrow> 'a Item \<Rightarrow> bool" where
  "eligible atEnd item = (atEnd \<longrightarrow> content item \<noteq> None)"

text \<open>
  The Sync9 document after agent A inserts \<open>x\<close> at position 0 and agent B then inserts
  \<open>y\<close> at position 0: the second insert splits \<open>x\<close>, leaving a placeholder with the id of
  \<open>x\<close> in front.
\<close>

definition splitDoc :: "string Doc" where
  "splitDoc =
     \<lparr>contentD =
        [\<lparr>content = None, ident = (''A'', 0), originLeft = None, originRight = None,
          seq = 0, insertAfter = True, isDeleted = False\<rparr>,
         \<lparr>content = Some ''y'', ident = (''B'', 0), originLeft = Some (''A'', 0), originRight = None,
          seq = 0, insertAfter = False, isDeleted = False\<rparr>,
         \<lparr>content = Some ''x'', ident = (''A'', 0), originLeft = None, originRight = None,
          seq = 0, insertAfter = True, isDeleted = False\<rparr>],
      version = [''A'' \<mapsto> 0, ''B'' \<mapsto> 0], lengthD = 2, maxSeq = 0\<rparr>"

text \<open>Running one operation after another; a failure ends the run.\<close>

definition andThen :: "'a outcome \<Rightarrow> ('a Doc \<Rightarrow> 'a outcome) \<Rightarrow> 'a outcome" where
  "andThen r f = (case r of Inl e \<Rightarrow> Inl e | Inr d \<Rightarrow> f d)"

text \<open>
  An item counts towards the visible text when it is not deleted and has content; the
  visible length of a list of items is the number of such items.
\<close>

definition visible :: "'a Item \<Rightarrow> bool" where
  "visible item = (\<not> isDeleted item \<and> content item \<noteq> None)"

definition visibleCount :: "'a Item list \<Rightarrow> int" where
  "visibleCount xs = int (length (filter visible xs))"

text \<open>The document a call leaves behind, whether it returned or threw.\<close>

definition docAfter :: "'a outcome \<Rightarrow> 'a Doc" where
  "docAfter r = (case r of Inl (e, d) \<Rightarrow> d | Inr d \<Rightarrow> d)"

text \<open>A document of agent A with one visible item followed by one tombstone.\<close>

definition tombDoc :: "string Doc" where
  "tombDoc =
     \<lparr>contentD = [makeItem ''a'' (''A'', 0) None None,
                  (makeItem ''b'' (''A'', 1) (Some (''A'', 0)) None)\<lparr>isDeleted := True\<rparr>],
      version = [''A'' \<mapsto> 1], lengthD = 1, maxSeq = 2\<rparr>"

text \<open>An item with a negative Automerge \<open>seq\<close> and an id that is out of order on a new document.\<close>

definition negSeqItem :: "string Item" where
  "negSeqItem = (makeItem ''a'' (''A'', 5) None None)\<lparr>seq := -1\<rparr>"

text \<open>
  The Sync9 document holding the single item \<open>x\<close> of agent A, and the item \<open>y\<close> of agent B
  that is inserted before the content of \<open>x\<close>.
\<close>

definition xDoc :: "string Doc" where
  "xDoc =
     \<lparr>contentD = [\<lparr>content = Some ''x'', ident = (''A'', 0), originLeft = None, originRight = None,
                   seq = 0, insertAfter = True, isDeleted = False\<rparr>],
      version = [''A'' \<mapsto> 0], lengthD = 1, maxSeq = 0\<rparr>"

definition yItem :: "string Item" where
  "yItem = \<lparr>content = Some ''y'', ident = (''B'', 0), originLeft = Some (''A'', 0), originRight = None,
            seq = 0, insertAfter = False, isDeleted = False\<rparr>"

text \<open>
  Integrating a list of items in the given order, each one only if it is causally ready
  (\<open>canInsertNow\<close>) when its turn comes, as \<open>integrateFuzzOnce\<close> of the tests picks them:
  \<open>None\<close> when the order does not respect causal readiness, otherwise the outcome of the
  integrations.
\<close>

fun causalRun :: "Algorithm \<Rightarrow> 'a Doc \<Rightarrow> 'a Item list \<Rightarrow> 'a outcome option" where
  "causalRun alg doc [] = Some (Inr doc)"
| "causalRun alg doc (op # ops) =
     (if \<not> canInsertNow op doc then None
      else (case integrate alg doc op (-1) of
          Inl e \<Rightarrow> Some (Inl e)
        | Inr d \<Rightarrow> causalRun alg d ops))"

text \<open>The outcomes of all causally ready orders of the items \<open>rest\<close>, starting from \<open>doc\<close>.\<close>

function exploreOrders :: "Algorithm \<Rightarrow> 'a Doc \<Rightarrow> 'a Item list \<Rightarrow> 'a outcome list" where
  "exploreOrders alg doc rest =
     (if rest = [] then [Inr doc]
      else concat (map (\<lambda>op. case integrate alg doc op (-1) of
                                 Inl e \<Rightarrow> [Inl e]
                               | Inr d \<Rightarrow> exploreOrders alg d (remove1 op rest))
                       (filter (\<lambda>op. canInsertNow op doc) rest)))"
  by pat_completeness auto
termination
  by (relation "measure (\<lambda>(alg, doc, rest). length rest)") (auto simp: length_remove1 intro: Suc_pred)

declare exploreOrders.simps [simp del]

text \<open>What a run shows of its outcome: the visible content, or the error.\<close>

definition shown :: "'a outcome \<Rightarrow> error + 'a list" where
  "shown r = (case r of Inl (e, d) \<Rightarrow> Inl e | Inr d \<Rightarrow> Inr (getArray d))"

text \<open>The six items of the test \<open>interleavingForward\<close>.\<close>

definition interleavingForward :: "string Item list" where
  "interleavingForward =
     [makeItem ''a'' (''A'', 0) None None,
      makeItem ''a'' (''A'', 1) (Some (''A'', 0)) None,
      makeItem ''a'' (''A'', 2) (Some (''A'', 1)) None,
      makeItem ''b'' (''B'', 0) None None,
      makeItem ''b'' (''B'', 1) (Some (''B'', 0)) None,
      makeItem ''b'' (''B'', 2) (Some (''B'', 1)) None]"

text \<open>One of the orders of \<open>interleavingForward\<close> that alternates between the two agents.\<close>

definition alternatingOrder :: "string Item list" where
  "alternatingOrder =
     [makeItem ''b'' (''B'', 0) None None,
      makeItem ''a'' (''A'', 0) None None,
      makeItem ''b'' (''B'', 1) (Some (''B'', 0)) None,
      makeItem ''a'' (''A'', 1) (Some (''A'', 0)) None,
      makeItem ''b'' (''B'', 2) (Some (''B'', 1)) None,
      makeItem ''a'' (''A'', 2) (Some (''A'', 1)) None]"

subsection \<open>The YjsMod integration as the specification words it (section 4.5)\<close>

text \<open>
  These definitions follow the specification's text, not the source: \<open>find_item\<close> without
  hint (the index of the item whose id equals the needle, -1 for root, ItemNotFound
  otherwise), the case split of section 4.5 as a decision table, the iteration
  \<open>i = destIdx, destIdx + 1, ...\<close> over the items from \<open>destIdx\<close> on, and the commit.
\<close>

definition spec_find_item :: "'a Doc \<Rightarrow> Id option \<Rightarrow> error + int" where
  "spec_find_item doc needle =
     (case needle of
        None \<Rightarrow> Inr (-1)
      | Some x \<Rightarrow>
          (let idx = findIndex (\<lambda>item. ident item = x) (contentD doc)
           in if idx < 0 then Inl ItemNotFound else Inr idx))"

definition spec_find_right :: "'a Doc \<Rightarrow> Id option \<Rightarrow> error + int" where
  "spec_find_right doc needle =
     (case needle of
        None \<Rightarrow> Inr (int (length (contentD doc)))
      | Some x \<Rightarrow> spec_find_item doc (Some x))"

datatype decision = Break | Continue bool

definition spec_case :: "int \<Rightarrow> int \<Rightarrow> int \<Rightarrow> int \<Rightarrow> string \<Rightarrow> string \<Rightarrow> bool \<Rightarrow> decision" where
  "spec_case left right oleft oright nAgent oAgent scanning =
     (if oleft < left then Break
      else if oleft = left then
        (if oright < right then Continue True
         else if oright = right then (if nAgent < oAgent then Break else Continue False)
         else Continue False)
      else Continue scanning)"

fun spec_iterate ::
  "'a Doc \<Rightarrow> 'a Item \<Rightarrow> int \<Rightarrow> int \<Rightarrow> 'a Item list \<Rightarrow> int \<Rightarrow> int \<Rightarrow> bool \<Rightarrow> error + int" where
  "spec_iterate doc N left right [] i destIdx scanning = Inr (if \<not> scanning then i else destIdx)"
| "spec_iterate doc N left right (other # rest) i destIdx scanning =
     (let destIdx' = (if \<not> scanning then i else destIdx) in
      if i = right then Inr destIdx'
      else (case spec_find_item doc (originLeft other) of
          Inl e \<Rightarrow> Inl e
        | Inr oleft \<Rightarrow>
           (case spec_find_right doc (originRight other) of
              Inl e \<Rightarrow> Inl e
            | Inr oright \<Rightarrow>
               (case spec_case left right oleft oright (fst (ident N)) (fst (ident other)) scanning of
                  Break \<Rightarrow> Inr destIdx'
                | Continue s \<Rightarrow> spec_iterate doc N left right rest (i + 1) destIdx' s))))"

definition spec_commit :: "'a Doc \<Rightarrow> int \<Rightarrow> 'a Item \<Rightarrow> 'a Doc" where
  "spec_commit doc destIdx N =
     doc\<lparr>contentD := take (nat destIdx) (contentD doc) @ N # drop (nat destIdx) (contentD doc),
         lengthD := lengthD doc + (if isDeleted N then 0 else 1)\<rparr>"

definition spec_integrate_YjsMod :: "'a Doc \<Rightarrow> 'a Item \<Rightarrow> 'a outcome" where
  "spec_integrate_YjsMod doc N =
     (if snd (ident N) \<noteq> (case version doc (fst (ident N)) of None \<Rightarrow> -1 | Some s \<Rightarrow> s) + 1
      then Inl (OutOfOrder, doc)
      else let doc1 = doc\<lparr>version := (version doc)(fst (ident N) \<mapsto> snd (ident N))\<rparr> in
        (case spec_find_item doc1 (originLeft N) of
           Inl e \<Rightarrow> Inl (e, doc1)
         | Inr left \<Rightarrow>
            (case spec_find_right doc1 (originRight N) of
               Inl e \<Rightarrow> Inl (e, doc1)
             | Inr right \<Rightarrow>
                (case spec_iterate doc1 N left right (drop (nat (left + 1)) (contentD doc1))
                        (left + 1) (left + 1) False of
                   Inl e \<Rightarrow> Inl (e, doc1)
                 | Inr destIdx \<Rightarrow> Inr (spec_commit doc1 destIdx N)))))"

text \<open>An item of agent B anchored right after the first item of \<open>tombDoc\<close>.\<close>

definition cItem :: "string Item" where
  "cItem = makeItem ''c'' (''B'', 0) (Some (''A'', 0)) None"

text \<open>The missing set of \<open>mergeInto\<close>, and the number of entries of \<open>missing\<close> not yet \<open>null\<close>.\<close>

definition missingSet :: "'a Doc \<Rightarrow> 'a Doc \<Rightarrow> 'a Item list" where
  "missingSet dest src =
     filter (\<lambda>op. content op \<noteq> None \<and> \<not> isInVersion (Some (ident op)) (version dest)) (contentD src)"

definition pending :: "'a option list \<Rightarrow> int" where
  "pending ms = int (length (filter (\<lambda>m. m \<noteq> None) ms))"

text \<open>
  The entries of \<open>missing\<close> against the items they started as: an entry is still its item,
  or it is \<open>null\<close> and the id of its item is in the version.
\<close>

definition covered :: "Version \<Rightarrow> 'a Item list \<Rightarrow> 'a Item option list \<Rightarrow> bool" where
  "covered v orig ms =
     list_all2 (\<lambda>op m. m = Some op \<or> (m = None \<and> isInVersion (Some (ident op)) v)) orig ms"

text \<open>Length coherence: \<open>length\<close> is the number of visible items.\<close>

definition coherent :: "'a Doc \<Rightarrow> bool" where
  "coherent doc = (lengthD doc = visibleCount (contentD doc))"

text \<open>
  A document whose items are objects of their own: the heap is its content, and the
  document holds the addresses 0, 1, ... in order. Its view is the document itself.
\<close>

definition docRefs :: "'a Doc \<Rightarrow> RDoc" where
  "docRefs d = \<lparr>refs = [0 ..< length (contentD d)], versionR = version d,
               lengthR = lengthD d, maxSeqR = maxSeq d\<rparr>"

text \<open>
  Two documents that share an item object. Agent A inserts \<open>x\<close> at position 0 of a new
  document \<open>a\<close>, and a new document \<open>b\<close> merges \<open>a\<close>. \<open>sharedItem\<close> is the one item object
  (with the \<open>seq\<close> that \<open>localInsert\<close> gives it), at address 0 of the heap; \<open>sharedDoc\<close> is
  what \<open>a\<close> is after the insert and what \<open>b\<close> is after the merge: both hold address 0.
\<close>

definition sharedItem :: "string Item" where
  "sharedItem = (makeItem ''x'' (''A'', 0) None None)\<lparr>seq := 1\<rparr>"

definition sharedDoc :: RDoc where
  "sharedDoc = \<lparr>refs = [0], versionR = [''A'' \<mapsto> 0], lengthR = 1, maxSeqR = 0\<rparr>"

subsection \<open>The Automerge integrate with the fast path removed\<close>

















subsection \<open>The YjsMod scan as a word of decisions\<close>

text \<open>
  What one iteration of the YjsMod loop does with the item \<open>other\<close> it looks at, read off
  the branches of \<open>integrateYjsMod\<close>: \<open>Stop\<close> for the two \<open>break\<close>s (and for \<open>i === right\<close>),
  \<open>Tent\<close> for \<open>scanning = true\<close>, \<open>Adv\<close> for \<open>scanning = false\<close>, \<open>Skip\<close> for the
  \<open>continue\<close> that leaves \<open>scanning\<close> as it is.
\<close>

datatype cls = Stop | Tent | Adv | Skip

text \<open>
  The number of items the loop passes before the index it leaves in \<open>destIdx\<close>, as a function
  of the decisions on the items from the start index on: \<open>slot\<close> when the loop is not
  scanning, \<open>slotT\<close> when it is (\<open>None\<close>: \<open>destIdx\<close> stays where the scan began).
\<close>

fun slot :: "cls list \<Rightarrow> nat" and slotT :: "cls list \<Rightarrow> nat option" where
  "slot [] = 0"
| "slot (c # w) = (case c of Stop \<Rightarrow> 0 | Adv \<Rightarrow> Suc (slot w) | Skip \<Rightarrow> Suc (slot w)
     | Tent \<Rightarrow> (case slotT w of None \<Rightarrow> 0 | Some k \<Rightarrow> Suc k))"
| "slotT [] = None"
| "slotT (c # w) = (case c of Stop \<Rightarrow> None | Adv \<Rightarrow> Some (Suc (slot w))
     | Skip \<Rightarrow> map_option Suc (slotT w) | Tent \<Rightarrow> map_option Suc (slotT w))"

text \<open>\<open>xs.splice(k, 0, x)\<close> for \<open>0 \<le> k \<le> xs.length\<close>.\<close>

definition insAt :: "nat \<Rightarrow> 'a \<Rightarrow> 'a list \<Rightarrow> 'a list" where
  "insAt k x xs = take k xs @ x # drop k xs"

text \<open>
  The index of the first item with id \<open>i\<close> (the length when there is none); \<open>left + 1\<close> and
  \<open>right\<close> as the YjsMod integrate computes them from \<open>originLeft\<close> and \<open>originRight\<close>, for
  origins the document holds.
\<close>

fun idx :: "Id \<Rightarrow> 'a Item list \<Rightarrow> nat" where
  "idx i [] = 0"
| "idx i (c # cs) = (if ident c = i then 0 else Suc (idx i cs))"

definition lft :: "'a Item list \<Rightarrow> Id option \<Rightarrow> nat" where
  "lft xs orig = (case orig of None \<Rightarrow> 0 | Some i \<Rightarrow> Suc (idx i xs))"

definition rgt :: "'a Item list \<Rightarrow> Id option \<Rightarrow> nat" where
  "rgt xs orig = (case orig of None \<Rightarrow> length xs | Some i \<Rightarrow> idx i xs)"

text \<open>The decision of the loop of \<open>integrateYjsMod\<close> for \<open>newItem = N\<close> on the item \<open>other\<close>.\<close>

definition letter :: "'a Item list \<Rightarrow> 'a Item \<Rightarrow> 'a Item \<Rightarrow> cls" where
  "letter xs N other =
     (if Some (ident other) = originRight N then Stop
      else if lft xs (originLeft other) < lft xs (originLeft N) then Stop
      else if lft xs (originLeft other) = lft xs (originLeft N) then
        (if rgt xs (originRight other) < rgt xs (originRight N) then Tent
         else if rgt xs (originRight other) = rgt xs (originRight N) then
           (if fst (ident N) < fst (ident other) then Stop else Adv)
         else Adv)
      else Skip)"

text \<open>The index at which the YjsMod integrate splices \<open>N\<close>, and the content it leaves.\<close>

definition place :: "'a Item list \<Rightarrow> 'a Item \<Rightarrow> nat" where
  "place xs N = lft xs (originLeft N) + slot (map (letter xs N) (drop (lft xs (originLeft N)) xs))"

definition insItem :: "'a Item list \<Rightarrow> 'a Item \<Rightarrow> 'a Item list" where
  "insItem xs N = insAt (place xs N) N xs"

text \<open>An origin is known to a list of items when it is null or the id of one of them.\<close>

definition known :: "'a Item list \<Rightarrow> Id option \<Rightarrow> bool" where
  "known xs orig = (case orig of None \<Rightarrow> True | Some i \<Rightarrow> i \<in> ident ` set xs)"

definition originsKnown :: "'a Item list \<Rightarrow> bool" where
  "originsKnown xs = (\<forall>c \<in> set xs. known xs (originLeft c) \<and> known xs (originRight c))"

text \<open>
  \<open>N\<close> is anchored in \<open>xs\<close>: the item its \<open>originRight\<close> names has its own \<open>originLeft\<close> at or
  before the \<open>originLeft\<close> of \<open>N\<close>.
\<close>

definition anchoredAt :: "'a Item list \<Rightarrow> 'a Item \<Rightarrow> bool" where
  "anchoredAt xs N =
     (\<forall>c \<in> set xs. Some (ident c) = originRight N
          \<longrightarrow> lft xs (originLeft c) \<le> lft xs (originLeft N))"

subsection \<open>Well-anchored sets of items\<close>

text \<open>
  The chain of left origins that starts at \<open>p\<close>: \<open>p\<close>, the \<open>originLeft\<close> of the item \<open>p\<close> names,
  the \<open>originLeft\<close> of that one, and so on, for at most \<open>n\<close> steps.
\<close>

fun leftChain :: "'a Item list \<Rightarrow> nat \<Rightarrow> Id option \<Rightarrow> Id option list" where
  "leftChain S 0 p = [p]"
| "leftChain S (Suc n) p =
     p # (case p of
            None \<Rightarrow> []
          | Some i \<Rightarrow> (case find (\<lambda>y. ident y = i) S of
                         None \<Rightarrow> []
                       | Some y \<Rightarrow> leftChain S n (originLeft y)))"

text \<open>
  A set of items is well anchored when every \<open>originLeft\<close> is null or names an item of the set,
  and every \<open>originRight\<close> is null or names an item of the set whose own \<open>originLeft\<close> lies on
  the chain of left origins of the item: the item right of an insertion is a sibling of the new
  item, or a sibling of one of its ancestors. \<open>localInsert\<close> takes both origins from
  neighbouring indices of one document.
\<close>

definition wellAnchored :: "'a Item list \<Rightarrow> bool" where
  "wellAnchored S =
     (\<forall>x \<in> set S.
        known S (originLeft x)
        \<and> (case originRight x of
             None \<Rightarrow> True
           | Some r \<Rightarrow>
               (case find (\<lambda>y. ident y = r) S of
                  None \<Rightarrow> False
                | Some y \<Rightarrow> originLeft y \<in> set (leftChain S (length S) (originLeft x)))))"

definition itemsOk :: "'a Item list \<Rightarrow> bool" where
  "itemsOk S = (distinct (map ident S) \<and> (\<forall>x \<in> set S. 0 \<le> snd (ident x)) \<and> wellAnchored S)"

text \<open>
  What holds of every document the YjsMod integrate builds from items of \<open>S\<close>: distinct ids,
  known origins, every item after the item its \<open>originLeft\<close> names, and a version that lists
  exactly the ids of the content.
\<close>

definition docInv :: "'a Item list \<Rightarrow> 'a Doc \<Rightarrow> bool" where
  "docInv S D =
     (distinct (map ident (contentD D))
      \<and> set (contentD D) \<subseteq> set S
      \<and> originsKnown (contentD D)
      \<and> (\<forall>c \<in> set (contentD D). lft (contentD D) (originLeft c) \<le> idx (ident c) (contentD D))
      \<and> (\<forall>a s. ((a, s) \<in> ident ` set (contentD D)) = (0 \<le> s \<and> s \<le> lastSeenOf D a))
      \<and> (\<forall>a. -1 \<le> lastSeenOf D a))"

text \<open>The document a successful YjsMod integrate of \<open>x\<close> leaves.\<close>

definition stepDoc :: "'a Doc \<Rightarrow> 'a Item \<Rightarrow> 'a Doc" where
  "stepDoc D x =
     (setVersion D (ident x))
       \<lparr>contentD := insItem (contentD D) x,
        lengthD := (if \<not> isDeleted x then lengthD D + 1 else lengthD D)\<rparr>"

text \<open>
  Four items of three agents, in two causally ready orders: the last item of agent B has the
  document start as \<open>originLeft\<close> and B's first item, a child of A's item, as \<open>originRight\<close>.
\<close>

definition crossedItems :: "string Item list" where
  "crossedItems =
     [makeItem ''a'' (''A'', 0) None None,
      makeItem ''c'' (''C'', 0) None None,
      makeItem ''b'' (''B'', 0) (Some (''A'', 0)) None,
      makeItem ''d'' (''B'', 1) None (Some (''B'', 0))]"

definition crossedOrder :: "string Item list" where
  "crossedOrder =
     [makeItem ''a'' (''A'', 0) None None,
      makeItem ''b'' (''B'', 0) (Some (''A'', 0)) None,
      makeItem ''d'' (''B'', 1) None (Some (''B'', 0)),
      makeItem ''c'' (''C'', 0) None None]"

text \<open>
  Five items as local inserts produce them: A types \<open>a\<close>, \<open>b\<close>; B and C each insert between
  \<open>a\<close> and \<open>b\<close>; B types a second item after its first. And a second causally ready order.
\<close>

definition anchoredItems :: "string Item list" where
  "anchoredItems =
     [makeItem ''a'' (''A'', 0) None None,
      makeItem ''b'' (''A'', 1) (Some (''A'', 0)) None,
      makeItem ''x'' (''B'', 0) (Some (''A'', 0)) (Some (''A'', 1)),
      makeItem ''y'' (''C'', 0) (Some (''A'', 0)) (Some (''A'', 1)),
      makeItem ''z'' (''B'', 1) (Some (''B'', 0)) (Some (''A'', 1))]"

definition anchoredOrder :: "string Item list" where
  "anchoredOrder =
     [makeItem ''a'' (''A'', 0) None None,
      makeItem ''b'' (''A'', 1) (Some (''A'', 0)) None,
      makeItem ''y'' (''C'', 0) (Some (''A'', 0)) (Some (''A'', 1)),
      makeItem ''x'' (''B'', 0) (Some (''A'', 0)) (Some (''A'', 1)),
      makeItem ''z'' (''B'', 1) (Some (''B'', 0)) (Some (''A'', 1))]"

section \<open>Properties\<close>

subsection \<open>Documents read through the heap\<close>

text \<open>
  Each operation on the heap and a document does to the view of the document what the
  operation on values does, as long as the references of the document are addresses of the
  heap (\<open>valid\<close>) and, for \<open>localDelete\<close>, the document holds each object once.
\<close>

lemma view_simps [simp]:
  "contentD (view h d) = map (\<lambda>a. h ! a) (refs d)"
  "version (view h d) = versionR d"
  "lengthD (view h d) = lengthR d"
  "maxSeq (view h d) = maxSeqR d"
  by (simp_all add: view_def)

lemma at_map: "at (map f xs) i = map_option f (at xs i)"
  by (auto simp: at_def nat_less_iff)

lemma view_setVersionR: "view h (setVersionR d i) = setVersion (view h d) i"
  by (simp add: view_def setVersionR_def setVersion_def)

lemma map_splice: "map f (splice k a rs) = splice k (f a) (map f rs)"
  by (simp add: splice_def Let_def take_map drop_map)

lemma view_commitRef: "view h (commitRef h d k a) = commitItem (view h d) k (h ! a)"
  by (simp add: view_def commitRef_def commitItem_def map_splice)

lemma view_commitSync9Ref: "view h (commitSync9Ref h d k a) = commitSync9 (view h d) k (h ! a)"
  by (simp add: view_def commitSync9Ref_def commitSync9_def map_splice)

lemma view_maxSeqR: "view h (d\<lparr>maxSeqR := m\<rparr>) = (view h d)\<lparr>maxSeq := m\<rparr>"
  by (simp add: view_def)

lemma view_integrateYjsModRef:
  "viewOut (integrateYjsModRef h d a hint) = integrateYjsMod (view h d) (h ! a) hint"
  by (simp add: integrateYjsModRef_def integrateYjsMod_def viewOut_def Let_def
      view_setVersionR view_commitRef split: sum.splits)

lemma view_integrateYjsRef:
  "viewOut (integrateYjsRef h d a hint) = integrateYjs (view h d) (h ! a) hint"
  by (simp add: integrateYjsRef_def integrateYjs_def viewOut_def Let_def
      view_setVersionR view_commitRef split: sum.splits)

lemma view_integrateAutomergeRef:
  "viewOut (integrateAutomergeRef h d a hint) = integrateAutomerge (view h d) (h ! a) hint"
proof -
  define d1 where "d1 = setVersionR d (ident (h ! a))"
  have vd1: "view h d1 = setVersion (view h d) (ident (h ! a))" by (simp add: d1_def view_setVersionR)
  have m: "maxSeqR d1 = maxSeq (view h d1)" by simp
  show ?thesis
    unfolding integrateAutomergeRef_def integrateAutomerge_def Let_def d1_def[symmetric] vd1[symmetric] m
    by (auto simp: viewOut_def view_commitRef view_maxSeqR split: sum.splits)
qed

lemma view_append: "valid h d \<Longrightarrow> view (h @ xs) d = view h d"
  by (simp add: view_def valid_def nth_append)

lemma valid_setVersionR [simp]: "valid h (setVersionR d i) = valid h d"
  by (simp add: valid_def setVersionR_def)

lemma view_integrateSync9Ref:
  assumes v: "valid h d" and a: "a < length h"
  shows "viewOut (integrateSync9Ref h d a hint) = integrateSync9 (view h d) (h ! a) hint"
proof -
  define d1 where "d1 = setVersionR d (ident (h ! a))"
  have v1: "valid h d1" using v by (simp add: d1_def)
  have vd1: "view h d1 = setVersion (view h d) (ident (h ! a))" by (simp add: d1_def view_setVersionR)
  note at = at_map
  have split: "\<And>p k. view (h @ [(h ! p)\<lparr>content := None\<rparr>])
           (d1\<lparr>refs := splice k (length h) (refs d1)\<rparr>)
      = (view h d1)\<lparr>contentD := splice k ((h ! p)\<lparr>content := None\<rparr>) (map ((!) h) (refs d1))\<rparr>"
  proof -
    fix p k
    let ?x = "(h ! p)\<lparr>content := None\<rparr>"
    have m: "map (\<lambda>x. (h @ [?x]) ! x) (refs d1) = map (\<lambda>x. h ! x) (refs d1)"
      using v1 by (simp add: valid_def nth_append)
    have hl: "(h @ [?x]) ! length h = ?x" by simp
    show "view (h @ [?x]) (d1\<lparr>refs := splice k (length h) (refs d1)\<rparr>)
      = (view h d1)\<lparr>contentD := splice k ?x (map ((!) h) (refs d1))\<rparr>"
      unfolding view_def by (simp add: map_splice m hl del: nth_append_length)
  qed
  have ha: "\<And>x. (h @ [x]) ! a = h ! a" using a by (simp add: nth_append)
  show ?thesis
    unfolding integrateSync9Ref_def integrateSync9_def Let_def d1_def[symmetric] vd1[symmetric]
    by (auto simp: viewOut_def at view_commitSync9Ref split ha split: sum.splits option.splits)
qed

lemma view_integrateRef:
  "valid h d \<Longrightarrow> a < length h
   \<Longrightarrow> viewOut (integrateRef alg h d a hint) = integrate alg (view h d) (h ! a) hint"
  by (cases alg)
     (simp_all add: integrateRef_def integrate_def view_integrateYjsRef view_integrateYjsModRef
        view_integrateAutomergeRef view_integrateSync9Ref)

lemma set_splice: "set (splice k a rs) = insert a (set rs)"
proof -
  have "\<And>n. set (take n rs) \<union> set (drop n rs) = set rs" by (metis append_take_drop_id set_append)
  then show ?thesis by (auto simp: splice_def Let_def)
qed

lemma integrateRef_Inr:
  assumes "integrateRef alg h d a hint = Inr (h', d')"
  shows "(\<exists>xs. h' = h @ xs) \<and> (alg \<noteq> sync9 \<longrightarrow> h' = h)
    \<and> set (refs d') \<subseteq> insert a (set (refs d)) \<union> {length h ..< length h'}"
proof (cases alg)
  case yjs
  with assms show ?thesis
    by (auto simp: integrateRef_def integrateYjsRef_def Let_def commitRef_def setVersionR_def
        set_splice split: if_splits sum.splits)
next
  case yjsMod
  with assms show ?thesis
    by (auto simp: integrateRef_def integrateYjsModRef_def Let_def commitRef_def setVersionR_def
        set_splice split: if_splits sum.splits)
next
  case automerge
  with assms show ?thesis
    by (auto simp: integrateRef_def integrateAutomergeRef_def Let_def commitRef_def setVersionR_def
        set_splice split: if_splits sum.splits)
next
  case sync9
  with assms show ?thesis
    by (auto simp: integrateRef_def integrateSync9Ref_def Let_def commitSync9Ref_def setVersionR_def
        set_splice split: if_splits sum.splits option.splits)
qed

lemma integrateRef_Inl:
  assumes "integrateRef alg h d a hint = Inl (e, h', d')"
  shows "h' = h \<and> refs d' = refs d"
proof (cases alg)
  case yjs
  with assms show ?thesis
    by (auto simp: integrateRef_def integrateYjsRef_def Let_def setVersionR_def
        split: if_splits sum.splits)
next
  case yjsMod
  with assms show ?thesis
    by (auto simp: integrateRef_def integrateYjsModRef_def Let_def setVersionR_def
        split: if_splits sum.splits)
next
  case automerge
  with assms show ?thesis
    by (auto simp: integrateRef_def integrateAutomergeRef_def Let_def setVersionR_def
        split: if_splits sum.splits)
next
  case sync9
  with assms show ?thesis
    by (auto simp: integrateRef_def integrateSync9Ref_def Let_def setVersionR_def
        split: if_splits sum.splits option.splits)
qed

lemma integrateRef_valid:
  assumes "integrateRef alg h d a hint = Inr (h', d')" and "valid h d" and "a < length h"
  shows "valid h' d'"
proof -
  from integrateRef_Inr[OF assms(1)] obtain xs where h': "h' = h @ xs"
    and s: "set (refs d') \<subseteq> insert a (set (refs d)) \<union> {length h ..< length h'}" by auto
  show ?thesis unfolding valid_def
  proof
    fix x assume "x \<in> set (refs d')"
    with s have "x = a \<or> x \<in> set (refs d) \<or> x < length h'" by auto
    with assms(2,3) h' show "x < length h'" by (auto simp: valid_def)
  qed
qed


lemma view_update:
  assumes "valid h d" "distinct (refs d)" "k < length (refs d)"
  shows "map ((!) (h[refs d ! k := x])) (refs d) = (map ((!) h) (refs d))[k := x]"
proof (rule nth_equalityI)
  show "length (map ((!) (h[refs d ! k := x])) (refs d)) = length ((map ((!) h) (refs d))[k := x])"
    by simp
next
  fix i assume "i < length (map ((!) (h[refs d ! k := x])) (refs d))"
  then have i: "i < length (refs d)" by simp
  have vk: "refs d ! k < length h" using assms(1,3) by (simp add: valid_def)
  show "map ((!) (h[refs d ! k := x])) (refs d) ! i = (map ((!) h) (refs d))[k := x] ! i"
  proof (cases "i = k")
    case True
    with i vk show ?thesis by simp
  next
    case False
    with assms(2,3) i have "refs d ! i \<noteq> refs d ! k" by (simp add: nth_eq_iff_index_eq)
    with i False show ?thesis by simp
  qed
qed



lemma localDelete_Inl: "localDelete h d agent pos = Inl (e, h', d') \<Longrightarrow> h' = h \<and> d' = d"
  by (auto simp: localDelete_def split: sum.splits option.splits if_splits)

lemma map_heap_append:
  assumes "\<forall>a. Some a \<in> set ms \<longrightarrow> a < length h"
  shows "map (map_option ((!) (h @ xs))) ms = map (map_option ((!) h)) ms"
proof (rule map_cong[OF refl])
  fix m assume "m \<in> set ms"
  with assms show "map_option ((!) (h @ xs)) m = map_option ((!) h) m"
    by (cases m) (auto simp: nth_append)
qed

lemma view_mergePass:
  assumes "valid h dest" and "\<forall>a. Some a \<in> set ms \<longrightarrow> a < length h"
  shows "case mergePass alg h dest ms of
      Inl (e, h', d') \<Rightarrow>
        mergePassV alg (view h dest) (map (map_option ((!) h)) ms) = Inl (e, view h' d')
        \<and> (\<exists>xs. h' = h @ xs) \<and> valid h' d'
    | Inr (h', d', ms', n) \<Rightarrow>
        mergePassV alg (view h dest) (map (map_option ((!) h)) ms)
          = Inr (view h' d', map (map_option ((!) h')) ms', n)
        \<and> (\<exists>xs. h' = h @ xs) \<and> valid h' d' \<and> (\<forall>a. Some a \<in> set ms' \<longrightarrow> Some a \<in> set ms)"
  using assms
proof (induction ms arbitrary: h dest)
  case Nil
  then show ?case by simp
next
  case (Cons m rest)
  have rl: "\<forall>a. Some a \<in> set rest \<longrightarrow> a < length h" using Cons.prems(2) by auto
  note ih = Cons.IH[OF Cons.prems(1) rl]
  show ?case
  proof (cases m)
    case None
    show ?thesis
    proof (cases "mergePass alg h dest rest")
      case (Inl x)
      obtain e h' d' where x: "x = (e, h', d')" by (metis prod_cases3)
      from ih Inl x None show ?thesis by simp
    next
      case (Inr y)
      obtain h' d' ms' n where y: "y = (h', d', ms', n)" by (metis prod_cases4)
      from ih Inr y None show ?thesis by auto
    qed
  next
    case (Some a)
    then have al: "a < length h" using Cons.prems(2) by auto
    show ?thesis
    proof (cases "canInsertNow (h ! a) (view h dest)")
      case False
      show ?thesis
      proof (cases "mergePass alg h dest rest")
        case (Inl x)
        obtain e h' d' where x: "x = (e, h', d')" by (metis prod_cases3)
        from ih Inl x Some False show ?thesis by simp
      next
        case (Inr y)
        obtain h' d' ms' n where y: "y = (h', d', ms', n)" by (metis prod_cases4)
        from ih Inr y have "\<exists>xs. h' = h @ xs" by simp
        then have "h' ! a = h ! a" using al by (auto simp: nth_append)
        with ih Inr y Some False show ?thesis by auto
      qed
    next
      case True
      have sim: "viewOut (integrateRef alg h dest a (-1)) = integrate alg (view h dest) (h ! a) (-1)"
        by (rule view_integrateRef[OF Cons.prems(1) al])
      show ?thesis
      proof (cases "integrateRef alg h dest a (-1)")
        case (Inl x)
        obtain e h' d' where x: "x = (e, h', d')" by (metis prod_cases3)
        from integrateRef_Inl[OF Inl[unfolded x]] have hh: "h' = h" "refs d' = refs dest" by auto
        then have v: "valid h' d'" using Cons.prems(1) by (simp add: valid_def)
        from sim Inl x have "integrate alg (view h dest) (h ! a) (-1) = Inl (e, view h' d')"
          by (simp add: viewOut_def)
        with Inl x Some True hh v show ?thesis by simp
      next
        case (Inr y)
        obtain h1 d1 where y: "y = (h1, d1)" by (metis prod.collapse)
        from integrateRef_Inr[OF Inr[unfolded y]] obtain xs where h1: "h1 = h @ xs" by auto
        have v1: "valid h1 d1" using integrateRef_valid[OF Inr[unfolded y] Cons.prems(1) al] .
        have rl1: "\<forall>a. Some a \<in> set rest \<longrightarrow> a < length h1" using rl h1 by auto
        note ih1 = Cons.IH[OF v1 rl1]
        have mm: "map (map_option ((!) h1)) rest = map (map_option ((!) h)) rest"
          unfolding h1 by (rule map_heap_append[OF rl])
        from sim Inr y have i: "integrate alg (view h dest) (h ! a) (-1) = Inr (view h1 d1)"
          by (simp add: viewOut_def)
        have ext: "\<And>h'. (\<exists>ys. h' = h1 @ ys) \<Longrightarrow> (\<exists>zs. h' = h @ zs)"
          unfolding h1 by auto
        have step: "mergePass alg h dest (m # rest) =
            (case mergePass alg h1 d1 rest of
              Inl e \<Rightarrow> Inl e
            | Inr (h', dest', rest', n) \<Rightarrow> Inr (h', dest', None # rest', n + 1))"
          using Inr y Some True by simp
        have stepV: "mergePassV alg (view h dest) (map (map_option ((!) h)) (m # rest)) =
            (case mergePassV alg (view h1 d1) (map (map_option ((!) h1)) rest) of
              Inl e \<Rightarrow> Inl e
            | Inr (dest', rest', n) \<Rightarrow> Inr (dest', None # rest', n + 1))"
          unfolding mm using i Some True by simp
        show ?thesis
        proof (cases "mergePass alg h1 d1 rest")
          case (Inl x)
          obtain e h' d' where x: "x = (e, h', d')" by (metis prod_cases3)
          from ih1 Inl x have "mergePassV alg (view h1 d1) (map (map_option ((!) h1)) rest) = Inl (e, view h' d')"
            and "\<exists>ys. h' = h1 @ ys" and "valid h' d'" by auto
          then show ?thesis unfolding step stepV using Inl x ext by simp
        next
          case Inr2: (Inr z)
          obtain h' d' ms' n where z: "z = (h', d', ms', n)" by (metis prod_cases4)
          from ih1 Inr2 z have "mergePassV alg (view h1 d1) (map (map_option ((!) h1)) rest)
               = Inr (view h' d', map (map_option ((!) h')) ms', n)"
            and "\<exists>ys. h' = h1 @ ys" and "valid h' d'"
            and "\<forall>a. Some a \<in> set ms' \<longrightarrow> Some a \<in> set rest" by auto
          then show ?thesis unfolding step stepV using Inr2 z ext by simp
        qed
      qed
    qed
  qed
qed

lemma view_mergeLoop:
  assumes "valid h dest" and "\<forall>a. Some a \<in> set ms \<longrightarrow> a < length h"
  shows "viewOut (mergeLoop alg h dest ms r) = mergeLoopV alg (view h dest) (map (map_option ((!) h)) ms) r
    \<and> (case mergeLoop alg h dest ms r of
         Inl (e, h', d') \<Rightarrow> (\<exists>xs. h' = h @ xs) \<and> valid h' d'
       | Inr (h', d') \<Rightarrow> (\<exists>xs. h' = h @ xs) \<and> valid h' d')"
  using assms
proof (induction "nat r" arbitrary: h dest ms r rule: less_induct)
  case less
  show ?case
  proof (cases "r > 0")
    case False
    have e1: "mergeLoop alg h dest ms r = Inr (h, dest)"
      using False by (subst mergeLoop.simps) simp
    have e2: "mergeLoopV alg (view h dest) (map (map_option ((!) h)) ms) r = Inr (view h dest)"
      using False by (subst mergeLoopV.simps) simp
    show ?thesis unfolding e1 e2 using less.prems(1) by (simp add: viewOut_def)
  next
    case True
    note p = view_mergePass[OF less.prems, where alg=alg]
    show ?thesis
    proof (cases "mergePass alg h dest ms")
      case (Inl x)
      obtain e h' d' where x: "x = (e, h', d')" by (metis prod_cases3)
      from p Inl x have q: "mergePassV alg (view h dest) (map (map_option ((!) h)) ms) = Inl (e, view h' d')"
        and ex: "\<exists>xs. h' = h @ xs" and v: "valid h' d'" by auto
      have e1: "mergeLoop alg h dest ms r = Inl (e, h', d')"
        using True Inl x by (subst mergeLoop.simps) simp
      have e2: "mergeLoopV alg (view h dest) (map (map_option ((!) h)) ms) r = Inl (e, view h' d')"
        using True q by (subst mergeLoopV.simps) simp
      show ?thesis unfolding e1 e2 using ex v by (simp add: viewOut_def)
    next
      case (Inr y)
      obtain h' d' ms' n where y: "y = (h', d', ms', n)" by (metis prod_cases4)
      from p Inr y have q: "mergePassV alg (view h dest) (map (map_option ((!) h)) ms)
          = Inr (view h' d', map (map_option ((!) h')) ms', n)"
        and ex: "\<exists>xs. h' = h @ xs" and v: "valid h' d'"
        and sub: "\<forall>a. Some a \<in> set ms' \<longrightarrow> Some a \<in> set ms" by auto
      show ?thesis
      proof (cases "n = 0")
        case n0: True
        have e1: "mergeLoop alg h dest ms r = Inl (AssertionFailed, h', d')"
          using True Inr y n0 by (subst mergeLoop.simps) simp
        have e2: "mergeLoopV alg (view h dest) (map (map_option ((!) h)) ms) r = Inl (AssertionFailed, view h' d')"
          using True q n0 by (subst mergeLoopV.simps) simp
        show ?thesis unfolding e1 e2 using ex v by (simp add: viewOut_def)
      next
        case n1: False
        have l: "\<forall>a. Some a \<in> set ms' \<longrightarrow> a < length h'" using sub less.prems(2) ex by auto
        have m: "nat (r - int n) < nat r" using n1 True by linarith
        note ih = less.hyps[OF m v l]
        have e1: "mergeLoop alg h dest ms r = mergeLoop alg h' d' ms' (r - int n)"
          using Inr y n1 True by (subst mergeLoop.simps) simp
        have e2: "mergeLoopV alg (view h dest) (map (map_option ((!) h)) ms) r
            = mergeLoopV alg (view h' d') (map (map_option ((!) h')) ms') (r - int n)"
          using q n1 True by (subst mergeLoopV.simps) simp
        from ex obtain xs where hx: "h' = h @ xs" by auto
        have ext: "\<And>h2. (\<exists>ys. h2 = h' @ ys) \<Longrightarrow> (\<exists>zs. h2 = h @ zs)"
          unfolding hx by auto
        from ih have a: "viewOut (mergeLoop alg h' d' ms' (r - int n))
            = mergeLoopV alg (view h' d') (map (map_option ((!) h')) ms') (r - int n)" by simp
        have b: "case mergeLoop alg h' d' ms' (r - int n) of
           Inl (e, h2, d2) \<Rightarrow> (\<exists>xs. h2 = h @ xs) \<and> valid h2 d2
         | Inr (h2, d2) \<Rightarrow> (\<exists>xs. h2 = h @ xs) \<and> valid h2 d2"
        proof (cases "mergeLoop alg h' d' ms' (r - int n)")
          case (Inl x2)
          obtain e h2 d2 where x2: "x2 = (e, h2, d2)" by (metis prod_cases3)
          from ih Inl x2 have "\<exists>ys. h2 = h' @ ys" "valid h2 d2" by auto
          with ext Inl x2 show ?thesis by simp
        next
          case (Inr y2)
          obtain h2 d2 where y2: "y2 = (h2, d2)" by (metis prod.collapse)
          from ih Inr y2 have "\<exists>ys. h2 = h' @ ys" "valid h2 d2" by auto
          with ext Inr y2 show ?thesis by simp
        qed
        show ?thesis unfolding e1 e2 using a b by simp
      qed
    qed
  qed
qed

lemma missing_view:
  "map (map_option ((!) h)) (map Some (filter (\<lambda>a. content (h ! a) \<noteq> None
        \<and> \<not> isInVersion (Some (ident (h ! a))) (versionR dest)) (refs src)))
   = map Some (missingSet (view h dest) (view h src))"
  by (simp add: missingSet_def filter_map comp_def)

lemma view_mergeInto:
  assumes "valid h dest" and "valid h src"
  shows "viewOut (mergeInto alg h dest src) = mergeIntoV alg (view h dest) (view h src)"
proof -
  define ms where "ms = map Some (filter (\<lambda>a. content (h ! a) \<noteq> None
        \<and> \<not> isInVersion (Some (ident (h ! a))) (versionR dest)) (refs src))"
  have l: "\<forall>a. Some a \<in> set ms \<longrightarrow> a < length h" using assms(2) by (auto simp: valid_def ms_def)
  have mv: "map (map_option ((!) h)) ms = map Some (missingSet (view h dest) (view h src))"
    unfolding ms_def by (rule missing_view)
  have len: "length ms = length (missingSet (view h dest) (view h src))"
    by (metis length_map mv)
  have a: "mergeInto alg h dest src = mergeLoop alg h dest ms (int (length ms))"
    by (simp add: mergeInto_def Let_def ms_def)
  have b: "mergeIntoV alg (view h dest) (view h src)
      = mergeLoopV alg (view h dest) (map Some (missingSet (view h dest) (view h src)))
          (int (length (missingSet (view h dest) (view h src))))"
    by (simp add: mergeIntoV_def Let_def missingSet_def)
  from view_mergeLoop[OF assms(1) l, where alg=alg and r="int (length ms)"] show ?thesis
    unfolding a b mv len by simp
qed

lemma mergeInto_heap:
  assumes "valid h dest" and "valid h src"
  shows "case mergeInto alg h dest src of
         Inl (e, h', d') \<Rightarrow> (\<exists>xs. h' = h @ xs) \<and> valid h' d'
       | Inr (h', d') \<Rightarrow> (\<exists>xs. h' = h @ xs) \<and> valid h' d'"
proof -
  define ms where "ms = map Some (filter (\<lambda>a. content (h ! a) \<noteq> None
        \<and> \<not> isInVersion (Some (ident (h ! a))) (versionR dest)) (refs src))"
  have l: "\<forall>a. Some a \<in> set ms \<longrightarrow> a < length h" using assms(2) by (auto simp: valid_def ms_def)
  have a: "mergeInto alg h dest src = mergeLoop alg h dest ms (int (length ms))"
    by (simp add: mergeInto_def Let_def ms_def)
  from view_mergeLoop[OF assms(1) l, where alg=alg and r="int (length ms)"] show ?thesis
    unfolding a by simp
qed

lemma view_docRefs: "view (contentD d) (docRefs d) = d"
  by (simp add: view_def docRefs_def map_nth)

lemma valid_docRefs: "valid (contentD d) (docRefs d)"
  by (simp add: valid_def docRefs_def)

lemma view_newRDoc: "view h newRDoc = newDoc"
  by (simp add: view_def newRDoc_def newDoc_def)

lemma valid_newRDoc: "valid h newRDoc"
  by (simp add: valid_def newRDoc_def)




subsection \<open>Lookup\<close>

lemma findIndex_first:
  "k < length xs \<Longrightarrow> P (xs ! k) \<Longrightarrow> (\<forall>j<k. \<not> P (xs ! j)) \<Longrightarrow> findIndex P xs = int k"
proof (induction xs arbitrary: k)
  case Nil
  then show ?case by simp
next
  case (Cons x xs)
  show ?case
  proof (cases k)
    case 0
    with Cons.prems show ?thesis by simp
  next
    case (Suc k')
    from Cons.prems Suc have nx: "\<not> P x" by auto
    from Cons.prems Suc have "findIndex P xs = int k'"
      by (intro Cons.IH) auto
    with nx Suc show ?thesis by (simp add: Let_def)
  qed
qed

lemma findIndex_bounds: "findIndex P xs < int (length xs) \<and> -1 \<le> findIndex P xs"
  by (induction xs) (auto simp: Let_def)


lemma findIndex_none: "findIndex P xs < 0 \<longleftrightarrow> (\<forall>x \<in> set xs. \<not> P x)"
  by (induction xs) (auto simp: Let_def)

lemma distinct_filter_nth:
  "distinct (map f (filter E xs)) \<Longrightarrow> j < k \<Longrightarrow> k < length xs \<Longrightarrow> E (xs ! j) \<Longrightarrow> E (xs ! k)
   \<Longrightarrow> f (xs ! j) \<noteq> f (xs ! k)"
proof (induction xs arbitrary: j k)
  case Nil
  then show ?case by simp
next
  case (Cons x xs)
  obtain k' where k: "k = Suc k'" using Cons.prems(2) by (cases k) auto
  show ?case
  proof (cases j)
    case 0
    with Cons.prems k have "E x" "E (xs ! k')" "k' < length xs" by auto
    then have "f (xs ! k') \<in> f ` set (filter E xs)" by auto
    with Cons.prems(1) \<open>E x\<close> have "f x \<noteq> f (xs ! k')" by auto
    with 0 k show ?thesis by simp
  next
    case (Suc j')
    with Cons.prems k have "f (xs ! j') \<noteq> f (xs ! k')"
      by (intro Cons.IH) (auto split: if_splits)
    with Suc k show ?thesis by simp
  qed
qed

lemma matches_eligible: "matches atEnd a s item \<Longrightarrow> eligible atEnd item \<and> ident item = (a, s)"
  by (auto simp: matches_def eligible_def idEq2_def)

lemma splitDoc_reached:
  "andThen (localInsertOf sync9 newDoc ''A'' 0 ''x'') (\<lambda>d. localInsertOf sync9 d ''B'' 0 ''y'')
   = Inr splitDoc"
  by (auto simp add: andThen_def localInsertOf_def localInsertSync9_def findItemAtPos_def newDoc_def
      idAt_def at_def integrate_def integrateSync9_def lastSeenOf_def setVersion_def findItem2_def
      commitSync9_def splice_def idEq_def matches_def idEq2_def splitDoc_def
      scanSync9.simps sync9Anchor.simps)

lemma findItem2_hint_eq:
  assumes "distinct (map ident (filter (eligible atEnd) (contentD doc)))"
  shows "findItem2 doc needle atEnd idx_hint = findItem2 doc needle atEnd (-1)"
proof (cases needle)
  case None
  then show ?thesis by (simp add: findItem2_def)
next
  case (Some i)
  obtain a s where i: "i = (a, s)" by (cases i)
  let ?xs = "contentD doc"
  show ?thesis
  proof (cases "idx_hint \<ge> 0 \<and> idx_hint < int (length ?xs) \<and> matches atEnd a s (?xs ! nat idx_hint)")
    case False
    then show ?thesis using Some i by (auto simp: findItem2_def)
  next
    case True
    then have k: "nat idx_hint < length ?xs" and m: "matches atEnd a s (?xs ! nat idx_hint)"
      by auto
    have "\<forall>j < nat idx_hint. \<not> matches atEnd a s (?xs ! j)"
    proof (intro allI impI notI)
      fix j assume j: "j < nat idx_hint" and mj: "matches atEnd a s (?xs ! j)"
      from distinct_filter_nth[OF assms j k] matches_eligible[OF mj] matches_eligible[OF m]
      show False by simp
    qed
    from findIndex_first[OF k m this] True
    have "findIndex (matches atEnd a s) ?xs = idx_hint" by simp
    with True Some i show ?thesis by (simp add: findItem2_def)
  qed
qed

text \<open>
  C8, as the code has it. \<open>findItem2\<close> returns the hinted index whenever the hinted item
  passes the test, and the first passing index otherwise. The two agree on every document in
  which the items the lookup can match (all items, or with \<open>atEnd\<close> the items with content)
  carry pairwise distinct ids: there the hint changes neither the index nor the
  found/not-found outcome.
\<close>

theorem findItem2_hint_transparent:
  assumes "distinct (map ident (filter (eligible atEnd) (contentD doc)))"
  shows "findItem2 doc needle atEnd idx_hint = findItem2 doc needle atEnd (-1)"
  using assms by (rule findItem2_hint_eq)

theorem findItem2_hint_transparent_witness:
  "distinct (map ident (filter (eligible True) (contentD splitDoc)))
   \<and> findItem2 splitDoc (Some (''A'', 0)) True 2 = findItem2 splitDoc (Some (''A'', 0)) True (-1)
   \<and> findItem2 splitDoc (Some (''A'', 0)) True 2 = Inr 2"
proof -
  have d: "distinct (map ident (filter (eligible True) (contentD splitDoc)))"
    by (simp add: splitDoc_def eligible_def)
  have "findItem2 splitDoc (Some (''A'', 0)) True 2 = Inr 2"
    by (simp add: findItem2_def splitDoc_def matches_def idEq2_def)
  with d findItem2_hint_transparent[OF d, of "Some (''A'', 0)" 2] show ?thesis by simp
qed

text \<open>
  C8, as stated, fails on a document Sync9 itself produces: in \<open>splitDoc\<close> the placeholder
  and the item it was split from share an id, and a hint at the second of them is returned
  although the lookup without a hint returns the first.
\<close>

theorem findItem2_hint_counterexample:
  "findItem2 splitDoc (Some (''A'', 0)) False 2 = Inr 2
   \<and> findItem2 splitDoc (Some (''A'', 0)) False (-1) = Inr 0"
  by (simp add: findItem2_def splitDoc_def matches_def idEq2_def)

subsection \<open>Visible positions and local delete\<close>

lemma visibleCount_Cons:
  "visibleCount (x # xs) = (if visible x then visibleCount xs + 1 else visibleCount xs)"
  by (simp add: visibleCount_def)

lemma visibleCount_nonneg: "0 \<le> visibleCount xs"
  by (simp add: visibleCount_def)

lemma findItemAtPos_loop_neg:
  "pos < 0 \<Longrightarrow> findItemAtPos_loop xs i pos False = Inl PositionOutOfRange"
  by (induction xs arbitrary: i pos) auto

lemma findItemAtPos_loop_gt:
  "pos > visibleCount xs \<Longrightarrow> findItemAtPos_loop xs i pos False = Inl PositionOutOfRange"
proof (induction xs arbitrary: i pos)
  case Nil
  then show ?case by (simp add: visibleCount_def)
next
  case (Cons x xs)
  then show ?case using visibleCount_nonneg[of xs]
    by (auto simp: visibleCount_Cons visible_def split: if_splits)
qed

lemma findItemAtPos_loop_eq:
  "pos = visibleCount xs \<Longrightarrow> findItemAtPos_loop xs i pos False = Inr (i + int (length xs))"
proof (induction xs arbitrary: i pos)
  case Nil
  then show ?case by (simp add: visibleCount_def)
next
  case (Cons x xs)
  then show ?case using visibleCount_nonneg[of xs]
    by (auto simp: visibleCount_Cons visible_def split: if_splits)
qed

lemma findItemAtPos_loop_lt:
  "0 \<le> pos \<Longrightarrow> pos < visibleCount xs \<Longrightarrow>
   \<exists>k < length xs. findItemAtPos_loop xs i pos False = Inr (i + int k)
       \<and> visible (xs ! k) \<and> visibleCount (take k xs) = pos"
proof (induction xs arbitrary: i pos)
  case Nil
  then show ?case by (simp add: visibleCount_def)
next
  case (Cons x xs)
  show ?case
  proof (cases "visible x")
    case False
    with Cons.prems have "pos < visibleCount xs" by (simp add: visibleCount_Cons)
    from Cons.IH[OF Cons.prems(1) this, of "i + 1"] obtain k where
      k: "k < length xs" "findItemAtPos_loop xs (i + 1) pos False = Inr (i + 1 + int k)"
         "visible (xs ! k)" "visibleCount (take k xs) = pos" by blast
    with False show ?thesis
      by (intro exI[of _ "Suc k"]) (auto simp: visible_def visibleCount_Cons)
  next
    case True
    show ?thesis
    proof (cases "pos = 0")
      case True
      with \<open>visible x\<close> show ?thesis
        by (intro exI[of _ 0]) (auto simp: visible_def visibleCount_def)
    next
      case False
      with Cons.prems True have "0 \<le> pos - 1" "pos - 1 < visibleCount xs"
        by (auto simp: visibleCount_Cons)
      from Cons.IH[OF this, of "i + 1"] obtain k where
        k: "k < length xs" "findItemAtPos_loop xs (i + 1) (pos - 1) False = Inr (i + 1 + int k)"
           "visible (xs ! k)" "visibleCount (take k xs) = pos - 1" by blast
      with True False show ?thesis
        by (intro exI[of _ "Suc k"]) (auto simp: visible_def visibleCount_Cons)
    qed
  qed
qed

text \<open>The three cases of \<open>localDelete\<close>, on the document read as a value.\<close>

lemma localDeleteV_boundary:
  "(0 \<le> pos \<and> pos < visibleCount (contentD doc) \<longrightarrow>
      (\<exists>k item. k < length (contentD doc) \<and> findItemAtPos doc pos False = Inr (int k)
          \<and> contentD doc ! k = item \<and> visible item
          \<and> visibleCount (take k (contentD doc)) = pos
          \<and> localDeleteV doc agent pos =
               Inr (doc\<lparr>contentD := (contentD doc)[k := item\<lparr>isDeleted := True\<rparr>],
                        lengthD := lengthD doc - 1\<rparr>)))
   \<and> (pos > visibleCount (contentD doc) \<longrightarrow>
        localDeleteV doc agent pos = Inl (PositionOutOfRange, doc))
   \<and> (pos = visibleCount (contentD doc) \<longrightarrow>
        findItemAtPos doc pos False = Inr (int (length (contentD doc)))
        \<and> localDeleteV doc agent pos = Inl (TypeError, doc))"
proof (intro conjI impI)
  assume "0 \<le> pos \<and> pos < visibleCount (contentD doc)"
  then obtain k where k: "k < length (contentD doc)"
      "findItemAtPos_loop (contentD doc) 0 pos False = Inr (0 + int k)"
      "visible (contentD doc ! k)" "visibleCount (take k (contentD doc)) = pos"
    using findItemAtPos_loop_lt[of pos "contentD doc" 0] by blast
  then show "\<exists>k item. k < length (contentD doc) \<and> findItemAtPos doc pos False = Inr (int k)
          \<and> contentD doc ! k = item \<and> visible item
          \<and> visibleCount (take k (contentD doc)) = pos
          \<and> localDeleteV doc agent pos =
               Inr (doc\<lparr>contentD := (contentD doc)[k := item\<lparr>isDeleted := True\<rparr>],
                        lengthD := lengthD doc - 1\<rparr>)"
    by (intro exI[of _ k] exI[of _ "contentD doc ! k"])
       (simp add: localDeleteV_def findItemAtPos_def at_def visible_def)
next
  assume "pos > visibleCount (contentD doc)"
  then show "localDeleteV doc agent pos = Inl (PositionOutOfRange, doc)"
    by (simp add: localDeleteV_def findItemAtPos_def findItemAtPos_loop_gt)
next
  assume "pos = visibleCount (contentD doc)"
  then show "findItemAtPos doc pos False = Inr (int (length (contentD doc)))"
    by (simp add: findItemAtPos_def findItemAtPos_loop_eq)
next
  assume "pos = visibleCount (contentD doc)"
  then show "localDeleteV doc agent pos = Inl (TypeError, doc)"
    by (simp add: localDeleteV_def findItemAtPos_def findItemAtPos_loop_eq at_def)
qed

text \<open>
  C10. With \<open>L\<close> the visible length of the document and a position \<open>0 \<le> pos < L\<close>,
  \<open>localDelete\<close> finds the visible item with exactly \<open>pos\<close> visible items before it, so the
  guard passes; it sets \<open>isDeleted\<close> on that item object and decrements \<open>length\<close>, and when
  the document holds each of its objects once, the document read through the heap changes
  at that one item only. With \<open>pos > L\<close> it fails with PositionOutOfRange. With \<open>pos = L\<close>,
  \<open>findItemAtPos\<close> returns \<open>content.length\<close> and the read of \<open>isDeleted\<close> on the missing
  item throws a TypeError instead. In each failure the heap and the document are unchanged.
\<close>

theorem localDelete_boundary:
  "(0 \<le> pos \<and> pos < visibleCount (contentD (view h doc)) \<longrightarrow>
      (\<exists>k item. k < length (refs doc) \<and> findItemAtPos (view h doc) pos False = Inr (int k)
          \<and> h ! (refs doc ! k) = item \<and> visible item
          \<and> visibleCount (take k (contentD (view h doc))) = pos
          \<and> localDelete h doc agent pos =
               Inr (h[refs doc ! k := item\<lparr>isDeleted := True\<rparr>], doc\<lparr>lengthR := lengthR doc - 1\<rparr>)
          \<and> (valid h doc \<and> distinct (refs doc) \<longrightarrow>
               view (h[refs doc ! k := item\<lparr>isDeleted := True\<rparr>]) (doc\<lparr>lengthR := lengthR doc - 1\<rparr>)
               = (view h doc)\<lparr>contentD := (contentD (view h doc))[k := item\<lparr>isDeleted := True\<rparr>],
                               lengthD := lengthD (view h doc) - 1\<rparr>)))
   \<and> (pos > visibleCount (contentD (view h doc)) \<longrightarrow>
        localDelete h doc agent pos = Inl (PositionOutOfRange, h, doc))
   \<and> (pos = visibleCount (contentD (view h doc)) \<longrightarrow>
        findItemAtPos (view h doc) pos False = Inr (int (length (refs doc)))
        \<and> localDelete h doc agent pos = Inl (TypeError, h, doc))"
proof (intro conjI impI)
  assume "0 \<le> pos \<and> pos < visibleCount (contentD (view h doc))"
  with localDeleteV_boundary[of pos "view h doc" agent] obtain k where
    k: "k < length (contentD (view h doc))"
       "findItemAtPos (view h doc) pos False = Inr (int k)"
       "visible (contentD (view h doc) ! k)"
       "visibleCount (take k (contentD (view h doc))) = pos" by blast
  from k(1) have kl: "k < length (refs doc)" by simp
  let ?a = "refs doc ! k"
  from kl k(3) have v: "visible (h ! ?a)" by simp
  have at: "at (refs doc) (int k) = Some ?a" using kl by (simp add: at_def)
  have del: "localDelete h doc agent pos =
      Inr (h[?a := (h ! ?a)\<lparr>isDeleted := True\<rparr>], doc\<lparr>lengthR := lengthR doc - 1\<rparr>)"
    using k(2) at v by (simp add: localDelete_def visible_def)
  have vw: "valid h doc \<and> distinct (refs doc) \<longrightarrow>
      view (h[?a := (h ! ?a)\<lparr>isDeleted := True\<rparr>]) (doc\<lparr>lengthR := lengthR doc - 1\<rparr>)
      = (view h doc)\<lparr>contentD := (contentD (view h doc))[k := (h ! ?a)\<lparr>isDeleted := True\<rparr>],
                      lengthD := lengthD (view h doc) - 1\<rparr>"
  proof
    assume "valid h doc \<and> distinct (refs doc)"
    then have "map ((!) (h[?a := (h ! ?a)\<lparr>isDeleted := True\<rparr>])) (refs doc)
        = (map ((!) h) (refs doc))[k := (h ! ?a)\<lparr>isDeleted := True\<rparr>]"
      using view_update[of h doc k] kl by simp
    then show "view (h[?a := (h ! ?a)\<lparr>isDeleted := True\<rparr>]) (doc\<lparr>lengthR := lengthR doc - 1\<rparr>)
      = (view h doc)\<lparr>contentD := (contentD (view h doc))[k := (h ! ?a)\<lparr>isDeleted := True\<rparr>],
                      lengthD := lengthD (view h doc) - 1\<rparr>"
      by (simp add: view_def)
  qed
  from kl k(2) v k(4) del vw
  show "\<exists>k item. k < length (refs doc) \<and> findItemAtPos (view h doc) pos False = Inr (int k)
          \<and> h ! (refs doc ! k) = item \<and> visible item
          \<and> visibleCount (take k (contentD (view h doc))) = pos
          \<and> localDelete h doc agent pos =
               Inr (h[refs doc ! k := item\<lparr>isDeleted := True\<rparr>], doc\<lparr>lengthR := lengthR doc - 1\<rparr>)
          \<and> (valid h doc \<and> distinct (refs doc) \<longrightarrow>
               view (h[refs doc ! k := item\<lparr>isDeleted := True\<rparr>]) (doc\<lparr>lengthR := lengthR doc - 1\<rparr>)
               = (view h doc)\<lparr>contentD := (contentD (view h doc))[k := item\<lparr>isDeleted := True\<rparr>],
                               lengthD := lengthD (view h doc) - 1\<rparr>)"
    by (intro exI[of _ k] exI[of _ "h ! ?a"]) blast
next
  assume "pos > visibleCount (contentD (view h doc))"
  with localDeleteV_boundary[of pos "view h doc" agent]
  have "localDeleteV (view h doc) agent pos = Inl (PositionOutOfRange, view h doc)" by blast
  then show "localDelete h doc agent pos = Inl (PositionOutOfRange, h, doc)"
    by (auto simp: localDelete_def localDeleteV_def at_map split: sum.splits option.splits if_splits)
next
  assume "pos = visibleCount (contentD (view h doc))"
  with localDeleteV_boundary[of pos "view h doc" agent]
  show "findItemAtPos (view h doc) pos False = Inr (int (length (refs doc)))" by simp
next
  assume "pos = visibleCount (contentD (view h doc))"
  with localDeleteV_boundary[of pos "view h doc" agent]
  have "findItemAtPos (view h doc) pos False = Inr (int (length (refs doc)))" by simp
  then show "localDelete h doc agent pos = Inl (TypeError, h, doc)"
    by (simp add: localDelete_def at_def)
qed

theorem localDelete_boundary_witness:
  "view (contentD tombDoc) (docRefs tombDoc) = tombDoc
   \<and> visibleCount (contentD tombDoc) = 1
   \<and> findItemAtPos tombDoc 0 False = Inr 0
   \<and> visible (contentD tombDoc ! 0)
   \<and> localDelete (contentD tombDoc) (docRefs tombDoc) ''A'' 0 =
        Inr ((contentD tombDoc)[0 := (contentD tombDoc ! 0)\<lparr>isDeleted := True\<rparr>],
             (docRefs tombDoc)\<lparr>lengthR := 0\<rparr>)
   \<and> view ((contentD tombDoc)[0 := (contentD tombDoc ! 0)\<lparr>isDeleted := True\<rparr>])
           ((docRefs tombDoc)\<lparr>lengthR := 0\<rparr>)
        = tombDoc\<lparr>contentD := (contentD tombDoc)[0 := (contentD tombDoc ! 0)\<lparr>isDeleted := True\<rparr>],
                  lengthD := 0\<rparr>
   \<and> localDelete (contentD tombDoc) (docRefs tombDoc) ''A'' 2
        = Inl (PositionOutOfRange, contentD tombDoc, docRefs tombDoc)
   \<and> findItemAtPos tombDoc 1 False = Inr 2
   \<and> localDelete (contentD tombDoc) (docRefs tombDoc) ''A'' 1
        = Inl (TypeError, contentD tombDoc, docRefs tombDoc)"
proof -
  let ?h = "contentD tombDoc" and ?d = "docRefs tombDoc"
  have vw: "view ?h ?d = tombDoc" by (rule view_docRefs)
  have L: "visibleCount (contentD tombDoc) = 1"
    by (simp add: tombDoc_def visibleCount_def visible_def makeItem_def)
  have r: "refs ?d = [0, 1]" "lengthR ?d = 1" by (simp_all add: docRefs_def tombDoc_def)
  have va: "valid ?h ?d" by (rule valid_docRefs)
  have di: "distinct (refs ?d)" by (simp add: r)
  have f0: "findItemAtPos tombDoc 0 False = Inr 0"
    by (simp add: findItemAtPos_def tombDoc_def makeItem_def)
  from localDelete_boundary[of 0 ?h ?d "''A''"] L vw obtain k item where
    k: "k < length (refs ?d)" "findItemAtPos tombDoc 0 False = Inr (int k)"
       "?h ! (refs ?d ! k) = item" "visible item"
       "localDelete ?h ?d ''A'' 0 =
          Inr (?h[refs ?d ! k := item\<lparr>isDeleted := True\<rparr>], ?d\<lparr>lengthR := lengthR ?d - 1\<rparr>)"
       "valid ?h ?d \<and> distinct (refs ?d) \<longrightarrow>
          view (?h[refs ?d ! k := item\<lparr>isDeleted := True\<rparr>]) (?d\<lparr>lengthR := lengthR ?d - 1\<rparr>)
          = (view ?h ?d)\<lparr>contentD := (contentD (view ?h ?d))[k := item\<lparr>isDeleted := True\<rparr>],
                          lengthD := lengthD (view ?h ?d) - 1\<rparr>"
    by auto
  from k(2) f0 have k0: "k = 0" by simp
  have i: "item = ?h ! 0" using k(3) k0 r by simp
  have l1: "lengthD tombDoc = 1" by (simp add: tombDoc_def)
  from localDelete_boundary[of 2 ?h ?d "''A''"] L vw
  have a: "localDelete ?h ?d ''A'' 2 = Inl (PositionOutOfRange, ?h, ?d)" by simp
  from localDelete_boundary[of 1 ?h ?d "''A''"] L vw r
  have b: "findItemAtPos tombDoc 1 False = Inr 2" "localDelete ?h ?d ''A'' 1 = Inl (TypeError, ?h, ?d)"
    by simp_all
  from k(4,5,6) va di show ?thesis
    unfolding k0 i vw using vw L f0 a b r l1 by simp
qed

subsection \<open>The order precondition of integrate\<close>

lemma findItem2_error: "findItem2 doc needle atEnd h = Inl e \<Longrightarrow> e = ItemNotFound"
  by (auto simp: findItem2_def Let_def split: option.splits if_splits)

lemma findItem_error: "findItem doc needle h = Inl e \<Longrightarrow> e = ItemNotFound"
  by (simp add: findItem_def findItem2_error)

lemma findRight_error: "findRight doc r h = Inl e \<Longrightarrow> e = ItemNotFound"
  by (auto simp: findRight_def findItem_error split: option.splits)

lemma scanYjsMod_error:
  "scanYjsMod doc newItem h left right i destIdx scanning \<noteq> Inl OutOfOrder"
proof (induction "nat (int (length (contentD doc)) - i)" arbitrary: i destIdx scanning rule: less_induct)
  case less
  have IH: "\<And>d' s'. scanYjsMod doc newItem h left right (i + 1) d' s' = Inl OutOfOrder
      \<Longrightarrow> i < int (length (contentD doc)) \<Longrightarrow> False"
    using less.hyps[of "i + 1"] by auto
  show ?case
    apply (subst scanYjsMod.simps)
    apply (auto simp: Let_def at_def split: if_splits option.splits sum.splits
        dest: findItem_error findRight_error IH)
    done
qed

lemma scanYjs_error:
  "scanYjs doc newItem h left right i destIdx scanning \<noteq> Inl OutOfOrder"
proof (induction "nat (int (length (contentD doc)) - i)" arbitrary: i destIdx scanning rule: less_induct)
  case less
  have IH: "\<And>d' s'. scanYjs doc newItem h left right (i + 1) d' s' = Inl OutOfOrder
      \<Longrightarrow> i < int (length (contentD doc)) \<Longrightarrow> False"
    using less.hyps[of "i + 1"] by auto
  show ?case
    apply (subst scanYjs.simps)
    apply (auto simp: Let_def at_def split: if_splits option.splits sum.splits
        dest: findItem_error findRight_error IH)
    done
qed

lemma scanAutomerge_error:
  "scanAutomerge doc newItem h parent destIdx lost \<noteq> Inl OutOfOrder"
proof (induction "nat (int (length (contentD doc)) - destIdx)" arbitrary: destIdx lost rule: less_induct)
  case less
  have IH: "\<And>l'. scanAutomerge doc newItem h parent (destIdx + 1) l' = Inl OutOfOrder
      \<Longrightarrow> destIdx < int (length (contentD doc)) \<Longrightarrow> False"
    using less.hyps[of "destIdx + 1"] by auto
  show ?case
    apply (subst scanAutomerge.simps)
    apply (auto simp: Let_def at_def split: if_splits option.splits sum.splits
        dest: findItem_error IH)
    done
qed

lemma scanSync9_error:
  "scanSync9 doc newItem h parentIdx destIdx \<noteq> Inl OutOfOrder"
proof (induction "nat (int (length (contentD doc)) - destIdx)" arbitrary: destIdx rule: less_induct)
  case less
  have IH: "scanSync9 doc newItem h parentIdx (destIdx + 1) = Inl OutOfOrder
      \<Longrightarrow> destIdx < int (length (contentD doc)) \<Longrightarrow> False"
    using less.hyps[of "destIdx + 1"] by auto
  show ?case
    apply (subst scanSync9.simps)
    apply (auto simp: Let_def at_def split: if_splits option.splits sum.splits
        dest: findItem2_error IH)
    done
qed

lemma version_commitItem [simp]: "version (commitItem d k N) = version d"
  by (simp add: commitItem_def)
lemma version_commitSync9 [simp]: "version (commitSync9 d k N) = version d"
  by (simp add: commitSync9_def)
lemma version_setVersion [simp]: "version (setVersion d i) = (version d)(fst i \<mapsto> snd i)"
  by (simp add: setVersion_def)

text \<open>
  C7, as the code has it. For the YjsMod, Yjs and Sync9 integrates, and for the Automerge
  integrate when \<open>N.seq \<ge> 0\<close>: the call fails with OutOfOrder exactly when
  \<open>N.id.seq \<noteq> (version[N.id.agent] ?? -1) + 1\<close>, and then the document is unchanged; when
  the precondition holds, the document the call leaves (returning, or throwing later for a
  missing anchor) has \<open>version[N.id.agent] = N.id.seq\<close>. The Automerge integrate asserts
  \<open>N.seq \<ge> 0\<close> first: with a negative \<open>seq\<close> it fails with that assertion, whatever the id,
  and leaves the document unchanged.
\<close>

theorem integrate_OutOfOrder:
  "(alg = automerge \<and> seq N < 0 \<longrightarrow> integrate alg doc N h = Inl (AssertionFailed, doc))
   \<and> (alg \<noteq> automerge \<or> seq N \<ge> 0 \<longrightarrow>
        ((\<exists>d. integrate alg doc N h = Inl (OutOfOrder, d))
            \<longleftrightarrow> snd (ident N) \<noteq> lastSeenOf doc (fst (ident N)) + 1)
        \<and> (snd (ident N) \<noteq> lastSeenOf doc (fst (ident N)) + 1
            \<longrightarrow> integrate alg doc N h = Inl (OutOfOrder, doc))
        \<and> (snd (ident N) = lastSeenOf doc (fst (ident N)) + 1
            \<longrightarrow> version (docAfter (integrate alg doc N h)) (fst (ident N)) = Some (snd (ident N))))"
proof (cases alg)
  case yjs
  then show ?thesis
    using scanYjs_error[of "setVersion doc (ident N)" N h]
    by (auto simp: integrate_def integrateYjs_def docAfter_def Let_def
        split: sum.splits dest: findItem_error findRight_error)
next
  case yjsMod
  then show ?thesis
    using scanYjsMod_error[of "setVersion doc (ident N)" N h]
    by (auto simp: integrate_def integrateYjsMod_def docAfter_def Let_def
        split: sum.splits dest: findItem_error findRight_error)
next
  case automerge
  then show ?thesis
    using scanAutomerge_error[of "setVersion doc (ident N)" N h]
    by (auto simp: integrate_def integrateAutomerge_def docAfter_def Let_def
        split: sum.splits dest: findItem_error)
next
  case sync9
  then show ?thesis
    using scanSync9_error[of "setVersion doc (ident N)" N h]
    by (auto simp: integrate_def integrateSync9_def docAfter_def Let_def
        split: sum.splits option.splits dest: findItem2_error)
qed

theorem integrate_OutOfOrder_witness:
  "integrate automerge newDoc negSeqItem (-1) = Inl (AssertionFailed, newDoc)
   \<and> integrate yjsMod newDoc (makeItem ''a'' (''A'', 1) None None) (-1) = Inl (OutOfOrder, newDoc)
   \<and> version (docAfter (integrate sync9 (newDoc :: string Doc) (makeItem ''a'' (''A'', 0) None None) (-1)))
        ''A'' = Some 0"
proof -
  have s: "seq negSeqItem < 0" by (simp add: negSeqItem_def)
  have l: "lastSeenOf (newDoc :: string Doc) ''A'' = -1" by (simp add: lastSeenOf_def newDoc_def)
  show ?thesis
    using integrate_OutOfOrder[of automerge negSeqItem newDoc "-1"]
      integrate_OutOfOrder[of yjsMod "makeItem ''a'' (''A'', 1) None None" newDoc "-1"]
      integrate_OutOfOrder[of sync9 "makeItem ''a'' (''A'', 0) None None" "newDoc :: string Doc" "-1"]
      s l
    by (simp add: makeItem_def)
qed

text \<open>
  C7, as stated, fails for the Automerge integrate: the id of \<open>negSeqItem\<close> is out of order
  on a new document, yet the call fails with the assertion on \<open>seq\<close>, not with OutOfOrder.
\<close>

theorem integrate_OutOfOrder_counterexample:
  "snd (ident negSeqItem) \<noteq> lastSeenOf (newDoc :: string Doc) (fst (ident negSeqItem)) + 1
   \<and> integrate automerge newDoc negSeqItem (-1) = Inl (AssertionFailed, newDoc)"
  by (simp add: negSeqItem_def makeItem_def lastSeenOf_def newDoc_def integrate_def
      integrateAutomerge_def)

subsection \<open>The Sync9 split\<close>

lemma findItem2_setVersion [simp]: "findItem2 (setVersion d i) = findItem2 d"
  by (intro ext) (simp add: findItem2_def setVersion_def split: option.splits)

lemma contentD_setVersion [simp]: "contentD (setVersion d i) = contentD d"
  by (simp add: setVersion_def)
lemma lengthD_setVersion [simp]: "lengthD (setVersion d i) = lengthD d"
  by (simp add: setVersion_def)

lemma findItem2_range:
  "findItem2 doc (Some pid) atEnd h = Inr p \<Longrightarrow> 0 \<le> p \<and> p < int (length (contentD doc))"
  using findIndex_bounds[of "matches atEnd (fst pid) (snd pid)" "contentD doc"]
  by (cases pid) (auto simp: findItem2_def Let_def split: if_splits)

text \<open>
  C6. When the order precondition holds, \<open>N.originLeft\<close> is an id, \<open>N.insertAfter\<close> is false
  and the item at \<open>parentIdx\<close> (the index the lookup of \<open>N.originLeft\<close> returns) has content,
  \<open>integrateSync9\<close> returns, without scanning, the document whose content has a copy of the
  parent with absent content at \<open>parentIdx\<close>, then \<open>N\<close>, then the parent itself; \<open>length\<close>
  grows by one exactly when \<open>N\<close> has content and is not deleted.
\<close>

theorem integrateSync9_split:
  assumes pre: "snd (ident N) = lastSeenOf doc (fst (ident N)) + 1"
    and anchor: "originLeft N = Some pid" "\<not> insertAfter N"
    and found: "findItem2 doc (Some pid) False (h - 1) = Inr parentIdx"
    and parent: "contentD doc ! nat parentIdx = parent" "content parent \<noteq> None"
  shows "integrateSync9 doc N h =
     Inr (doc\<lparr>contentD := take (nat parentIdx) (contentD doc)
                    @ [parent\<lparr>content := None\<rparr>, N, parent]
                    @ drop (Suc (nat parentIdx)) (contentD doc),
              version := (version doc)(fst (ident N) \<mapsto> snd (ident N)),
              lengthD := (if content N \<noteq> None \<and> \<not> isDeleted N
                          then lengthD doc + 1 else lengthD doc)\<rparr>)"
proof -
  from findItem2_range[OF found] have r: "0 \<le> parentIdx" "parentIdx < int (length (contentD doc))"
    by auto
  let ?xs = "contentD doc"
  have sp: "splice parentIdx (parent\<lparr>content := None\<rparr>) ?xs
      = take (nat parentIdx) ?xs @ [parent\<lparr>content := None\<rparr>] @ drop (nat parentIdx) ?xs"
    using r by (simp add: splice_def min_def)
  have dr: "drop (nat parentIdx) ?xs = parent # drop (Suc (nat parentIdx)) ?xs"
    using r parent Cons_nth_drop_Suc[of "nat parentIdx" ?xs] by simp
  have sp2: "splice (parentIdx + 1) N (take (nat parentIdx) ?xs @ [parent\<lparr>content := None\<rparr>] @ parent # drop (Suc (nat parentIdx)) ?xs)
     = take (nat parentIdx) ?xs @ [parent\<lparr>content := None\<rparr>, N, parent] @ drop (Suc (nat parentIdx)) ?xs"
    using r by (simp add: splice_def min_def nat_add_distrib)
  show ?thesis
    using pre anchor found parent r sp dr sp2
    by (simp add: integrateSync9_def Let_def at_def commitSync9_def)
       (simp add: setVersion_def)
qed

theorem integrateSync9_split_witness:
  "snd (ident yItem) = lastSeenOf xDoc (fst (ident yItem)) + 1
   \<and> originLeft yItem = Some (''A'', 0) \<and> \<not> insertAfter yItem
   \<and> findItem2 xDoc (Some (''A'', 0)) False (0 - 1) = Inr 0
   \<and> content (contentD xDoc ! nat 0) \<noteq> None
   \<and> integrateSync9 xDoc yItem 0 = Inr splitDoc"
proof -
  have a: "snd (ident yItem) = lastSeenOf xDoc (fst (ident yItem)) + 1"
    by (simp add: yItem_def xDoc_def lastSeenOf_def)
  have b: "originLeft yItem = Some (''A'', 0)" "\<not> insertAfter yItem"
    by (simp_all add: yItem_def)
  have c: "findItem2 xDoc (Some (''A'', 0)) False (0 - 1) = Inr 0"
    by (simp add: findItem2_def xDoc_def matches_def idEq2_def)
  have d: "content (contentD xDoc ! nat 0) \<noteq> None"
    by (simp add: xDoc_def)
  have "integrateSync9 xDoc yItem 0 = Inr splitDoc"
    using integrateSync9_split[OF a b c refl d]
    by (simp add: xDoc_def yItem_def splitDoc_def)
  with a b c d show ?thesis by simp
qed

subsection \<open>Causally ready integration orders\<close>

lemma causalRun_explored:
  "distinct ops \<Longrightarrow> distinct rest \<Longrightarrow> set ops = set rest \<Longrightarrow> causalRun alg doc ops = Some r
   \<Longrightarrow> r \<in> set (exploreOrders alg doc rest)"
proof (induction ops arbitrary: doc rest)
  case Nil
  then show ?case by (simp add: exploreOrders.simps)
next
  case (Cons op ops)
  from Cons.prems have mem: "op \<in> set rest" and ne: "rest \<noteq> []" by auto
  from Cons.prems have ready: "canInsertNow op doc" by (auto split: if_splits)
  show ?case
  proof (cases "integrate alg doc op (-1)")
    case (Inl e)
    with Cons.prems ready have "r = Inl e" by simp
    with Inl mem ready ne show ?thesis
      by (subst exploreOrders.simps) (auto intro!: bexI[of _ op])
  next
    case (Inr d)
    with Cons.prems ready have run: "causalRun alg d ops = Some r" by simp
    from Cons.prems have "distinct ops" "distinct (remove1 op rest)" "set ops = set (remove1 op rest)"
      by auto
    from Cons.IH[OF this run] Inr mem ready ne show ?thesis
      by (subst exploreOrders.simps) (auto intro!: bexI[of _ op])
  qed
qed

lemma interleavingForward_explored:
  "map shown (exploreOrders yjsMod newDoc interleavingForward)
   = replicate 20 (Inr [''a'', ''a'', ''a'', ''b'', ''b'', ''b''])"
  by code_simp

lemma shown_Inr: "shown r = Inr xs \<Longrightarrow> \<exists>d. r = Inr d \<and> getArray d = xs"
  by (auto simp: shown_def split: sum.splits prod.splits)

text \<open>
  C3. Every order of the six items of \<open>interleavingForward\<close> (three of agent A, each anchored
  right of the one before, and three of agent B likewise) that respects causal readiness
  integrates without failure under the YjsMod integrate and yields exactly the content
  a, a, a, b, b, b: the run of each agent is contiguous.
\<close>

theorem interleavingForward_yjsMod:
  assumes "distinct ops" and "set ops = set interleavingForward"
    and "causalRun yjsMod newDoc ops \<noteq> None"
  shows "\<exists>d. causalRun yjsMod newDoc ops = Some (Inr d)
           \<and> getArray d = [''a'', ''a'', ''a'', ''b'', ''b'', ''b'']"
proof -
  from assms(3) obtain r where r: "causalRun yjsMod newDoc ops = Some r" by auto
  have "distinct interleavingForward" by (simp add: interleavingForward_def makeItem_def)
  from causalRun_explored[OF assms(1) this assms(2) r]
  have "shown r \<in> set (map shown (exploreOrders yjsMod newDoc interleavingForward))" by simp
  then have "shown r = Inr [''a'', ''a'', ''a'', ''b'', ''b'', ''b'']"
    unfolding interleavingForward_explored by simp
  from shown_Inr[OF this] r show ?thesis by auto
qed

theorem interleavingForward_yjsMod_witness:
  "distinct alternatingOrder \<and> set alternatingOrder = set interleavingForward
   \<and> causalRun yjsMod newDoc alternatingOrder \<noteq> None
   \<and> (\<exists>d. causalRun yjsMod newDoc alternatingOrder = Some (Inr d)
           \<and> getArray d = [''a'', ''a'', ''a'', ''b'', ''b'', ''b''])"
proof -
  have a: "distinct alternatingOrder" by (simp add: alternatingOrder_def makeItem_def)
  have b: "set alternatingOrder = set interleavingForward"
    by (auto simp: alternatingOrder_def interleavingForward_def)
  have c: "causalRun yjsMod newDoc alternatingOrder \<noteq> None" by code_simp
  from interleavingForward_yjsMod[OF a b c] a b c show ?thesis by simp
qed

subsection \<open>YjsMod integration against the specification\<close>

lemma matches_False: "matches False a s = (\<lambda>item. ident item = (a, s))"
  by (intro ext) (auto simp: matches_def idEq2_def)

lemma findItem_spec:
  "h < 0 \<or> distinct (map ident (contentD doc)) \<Longrightarrow> findItem doc needle h = spec_find_item doc needle"
proof -
  assume a: "h < 0 \<or> distinct (map ident (contentD doc))"
  have "findItem doc needle h = findItem doc needle (-1)"
  proof (cases "h < 0")
    case True
    then show ?thesis by (simp add: findItem_def findItem2_def split: option.splits)
  next
    case False
    with a have "distinct (map ident (filter (eligible False) (contentD doc)))"
      by (simp add: eligible_def)
    from findItem2_hint_eq[OF this] show ?thesis by (simp add: findItem_def)
  qed
  also have "\<dots> = spec_find_item doc needle"
    by (simp add: findItem_def findItem2_def spec_find_item_def matches_False split: option.splits)
  finally show ?thesis .
qed

lemma findRight_spec:
  "h < 0 \<or> distinct (map ident (contentD doc)) \<Longrightarrow> findRight doc needle h = spec_find_right doc needle"
  by (simp add: findRight_def spec_find_right_def findItem_spec split: option.splits)

lemma scanYjsMod_spec:
  assumes h: "h < 0 \<or> distinct (map ident (contentD doc))"
  shows "0 \<le> i \<Longrightarrow> i \<le> int (length (contentD doc)) \<Longrightarrow>
    scanYjsMod doc N h left right i destIdx scanning
    = spec_iterate doc N left right (drop (nat i) (contentD doc)) i destIdx scanning"
proof (induction "nat (int (length (contentD doc)) - i)" arbitrary: i destIdx scanning rule: less_induct)
  case less
  show ?case
  proof (cases "i = int (length (contentD doc))")
    case True
    then show ?thesis by (subst scanYjsMod.simps) (simp add: Let_def)
  next
    case False
    with less.prems have lt: "nat i < length (contentD doc)" by auto
    have dr: "drop (nat i) (contentD doc) = contentD doc ! nat i # drop (nat (i + 1)) (contentD doc)"
      using lt less.prems Cons_nth_drop_Suc[of "nat i" "contentD doc"] by (simp add: nat_add_distrib)
    have at: "at (contentD doc) i = Some (contentD doc ! nat i)"
      using lt less.prems by (simp add: at_def)
    have h1: "h - 1 < 0 \<or> distinct (map ident (contentD doc))" using h by auto
    have IH: "\<And>d s. scanYjsMod doc N h left right (i + 1) d s
        = spec_iterate doc N left right (drop (nat (i + 1)) (contentD doc)) (i + 1) d s"
      using less.hyps[of "i + 1"] less.prems False by auto
    show ?thesis
      apply (subst scanYjsMod.simps)
      apply (simp only: dr spec_iterate.simps at option.case findItem_spec[OF h1] findRight_spec[OF h] IH)
      apply (simp add: Let_def spec_case_def False split: sum.splits)
      done
  qed
qed


lemma findItem2_range_any:
  assumes "findItem2 doc needle atEnd h = Inr p"
  shows "-1 \<le> p \<and> p < int (length (contentD doc))"
proof (cases needle)
  case None
  with assms show ?thesis by (auto simp: findItem2_def)
next
  case (Some pid)
  with assms findItem2_range[of doc pid atEnd h p] show ?thesis by simp
qed

lemma findItem_range:
  "findItem doc needle h = Inr p \<Longrightarrow> -1 \<le> p \<and> p < int (length (contentD doc))"
  unfolding findItem_def by (rule findItem2_range_any)

lemma scanYjsMod_range:
  "0 \<le> i \<Longrightarrow> i \<le> int (length (contentD doc))
   \<Longrightarrow> (scanning \<longrightarrow> 0 \<le> destIdx \<and> destIdx \<le> int (length (contentD doc)))
   \<Longrightarrow> scanYjsMod doc N h left right i destIdx scanning = Inr d
   \<Longrightarrow> 0 \<le> d \<and> d \<le> int (length (contentD doc))"
proof (induction "nat (int (length (contentD doc)) - i)" arbitrary: i destIdx scanning rule: less_induct)
  case less
  have IH: "\<And>d' s'. scanYjsMod doc N h left right (i + 1) d' s' = Inr d
      \<Longrightarrow> i < int (length (contentD doc))
      \<Longrightarrow> (s' \<longrightarrow> 0 \<le> d' \<and> d' \<le> int (length (contentD doc)))
      \<Longrightarrow> 0 \<le> d \<and> d \<le> int (length (contentD doc))"
    using less.hyps[of "i + 1"] less.prems(1) by auto
  from less.prems(4) less.prems(1-3) show ?case
    apply (subst (asm) scanYjsMod.simps)
    apply (auto simp: Let_def at_def split: if_splits option.splits sum.splits dest: IH)
    done
qed

lemma splice_in_range:
  "0 \<le> d \<Longrightarrow> d \<le> int (length xs) \<Longrightarrow> splice d x xs = take (nat d) xs @ x # drop (nat d) xs"
  by (simp add: splice_def min_def)

text \<open>
  C2. The YjsMod integrate of the source is the integration the specification describes:
  version check and update, \<open>left\<close> and \<open>right\<close> by lookup, the iteration from \<open>left + 1\<close>
  with the case analysis of section 4.5, and the commit (splice at \<open>destIdx\<close>, \<open>length\<close>
  incremented iff \<open>N\<close> is not deleted). The two agree for every item, with or without the
  order precondition, on every document when no hint is passed, and for every hint on
  documents whose ids are pairwise distinct, where "the index of an id" is unambiguous.
\<close>

theorem integrateYjsMod_follows_spec:
  assumes "h < 0 \<or> distinct (map ident (contentD doc))"
  shows "integrateYjsMod doc N h = spec_integrate_YjsMod doc N"
proof (cases "snd (ident N) \<noteq> lastSeenOf doc (fst (ident N)) + 1")
  case True
  then show ?thesis
    by (simp add: integrateYjsMod_def spec_integrate_YjsMod_def lastSeenOf_def)
next
  case False
  define doc1 where "doc1 = setVersion doc (ident N)"
  have c1: "contentD doc1 = contentD doc" by (simp add: doc1_def)
  have h: "h < 0 \<or> distinct (map ident (contentD doc1))" using assms c1 by simp
  have h1: "h - 1 < 0 \<or> distinct (map ident (contentD doc1))" using h by auto
  have d1: "doc\<lparr>version := (version doc)(fst (ident N) \<mapsto> snd (ident N))\<rparr> = doc1"
    by (simp add: doc1_def setVersion_def)
  have core: "(case findItem doc1 (originLeft N) (h - 1) of
           Inl e \<Rightarrow> Inl (e, doc1)
         | Inr left \<Rightarrow>
            (case findRight doc1 (originRight N) h of
               Inl e \<Rightarrow> Inl (e, doc1)
             | Inr right \<Rightarrow>
                (case scanYjsMod doc1 N h left right (left + 1) (left + 1) False of
                   Inl e \<Rightarrow> Inl (e, doc1)
                 | Inr destIdx \<Rightarrow> Inr (commitItem doc1 destIdx N))))
     = (case spec_find_item doc1 (originLeft N) of
           Inl e \<Rightarrow> Inl (e, doc1)
         | Inr left \<Rightarrow>
            (case spec_find_right doc1 (originRight N) of
               Inl e \<Rightarrow> Inl (e, doc1)
             | Inr right \<Rightarrow>
                (case spec_iterate doc1 N left right (drop (nat (left + 1)) (contentD doc1))
                        (left + 1) (left + 1) False of
                   Inl e \<Rightarrow> Inl (e, doc1)
                 | Inr destIdx \<Rightarrow> Inr (spec_commit doc1 destIdx N))))"
  proof (cases "spec_find_item doc1 (originLeft N)")
    case (Inl e)
    then show ?thesis by (simp add: findItem_spec[OF h1])
  next
    case left: (Inr left)
    then have "findItem doc1 (originLeft N) (h - 1) = Inr left" by (simp add: findItem_spec[OF h1])
    from findItem_range[OF this] have lr: "0 \<le> left + 1" "left + 1 \<le> int (length (contentD doc1))"
      by auto
    show ?thesis
    proof (cases "spec_find_right doc1 (originRight N)")
      case (Inl e)
      with left show ?thesis by (simp add: findItem_spec[OF h1] findRight_spec[OF h])
    next
      case right: (Inr right)
      have sc: "scanYjsMod doc1 N h left right (left + 1) (left + 1) False
          = spec_iterate doc1 N left right (drop (nat (left + 1)) (contentD doc1)) (left + 1) (left + 1) False"
        by (rule scanYjsMod_spec[OF h lr])
      show ?thesis
      proof (cases "spec_iterate doc1 N left right (drop (nat (left + 1)) (contentD doc1)) (left + 1) (left + 1) False")
        case (Inl e)
        with left right sc show ?thesis by (simp add: findItem_spec[OF h1] findRight_spec[OF h])
      next
        case (Inr d)
        with sc have "scanYjsMod doc1 N h left right (left + 1) (left + 1) False = Inr d" by simp
        from scanYjsMod_range[OF lr _ this] have "0 \<le> d" "d \<le> int (length (contentD doc1))" by auto
        then have "commitItem doc1 d N = spec_commit doc1 d N"
          by (simp add: commitItem_def spec_commit_def splice_in_range)
        with left right sc Inr show ?thesis by (simp add: findItem_spec[OF h1] findRight_spec[OF h])
      qed
    qed
  qed
  from False show ?thesis
    unfolding integrateYjsMod_def spec_integrate_YjsMod_def Let_def d1 doc1_def[symmetric]
    using core by (simp add: lastSeenOf_def)
qed

theorem integrateYjsMod_follows_spec_witness:
  "distinct (map ident (contentD tombDoc))
   \<and> integrateYjsMod tombDoc cItem 1 = spec_integrate_YjsMod tombDoc cItem
   \<and> shown (spec_integrate_YjsMod tombDoc cItem) = Inr [''a'', ''c'']"
proof -
  have d: "distinct (map ident (contentD tombDoc))"
    by (simp add: tombDoc_def makeItem_def)
  then have "(1::int) < 0 \<or> distinct (map ident (contentD tombDoc))" by simp
  from integrateYjsMod_follows_spec[OF this, of cItem]
  have e: "integrateYjsMod tombDoc cItem 1 = spec_integrate_YjsMod tombDoc cItem" .
  have "shown (spec_integrate_YjsMod tombDoc cItem) = Inr [''a'', ''c'']"
    by code_simp
  with d e show ?thesis by simp
qed

subsection \<open>Merge\<close>

lemma integrate_version:
  assumes "integrate alg d op h = Inr d'"
  shows "version d' = (version d)(fst (ident op) \<mapsto> snd (ident op))
         \<and> snd (ident op) = lastSeenOf d (fst (ident op)) + 1"
proof (cases alg)
  case yjs
  with assms show ?thesis
    by (auto simp: integrate_def integrateYjs_def Let_def split: if_splits sum.splits)
next
  case yjsMod
  with assms show ?thesis
    by (auto simp: integrate_def integrateYjsMod_def Let_def split: if_splits sum.splits)
next
  case automerge
  with assms show ?thesis
    by (auto simp: integrate_def integrateAutomerge_def Let_def split: if_splits sum.splits)
next
  case sync9
  with assms show ?thesis
    by (auto simp: integrate_def integrateSync9_def Let_def split: if_splits sum.splits option.splits)
qed

lemma integrate_mono:
  assumes "integrate alg d op h = Inr d'" and "isInVersion x (version d)"
  shows "isInVersion x (version d')"
  using integrate_version[OF assms(1)] assms(2)
  by (auto simp: isInVersion_def lastSeenOf_def split: option.splits)

lemma integrate_inVersion:
  assumes "integrate alg d op h = Inr d'"
  shows "isInVersion (Some (ident op)) (version d')"
  using integrate_version[OF assms]
  by (cases "ident op") (auto simp: isInVersion_def)

lemma mergePassV_mono:
  "mergePassV alg dest ms = Inr (dest', ms', n) \<Longrightarrow> isInVersion x (version dest)
   \<Longrightarrow> isInVersion x (version dest')"
proof (induction alg dest ms arbitrary: dest' ms' n rule: mergePassV.induct)
  case (1 alg dest)
  then show ?case by simp
next
  case (2 alg dest rest)
  then show ?case by (auto split: sum.splits)
next
  case (3 alg dest op rest)
  show ?case
  proof (cases "canInsertNow op dest")
    case False
    with 3 show ?thesis by (auto split: sum.splits)
  next
    case True
    with "3.prems" obtain dest1 where i: "integrate alg dest op (-1) = Inr dest1"
      by (auto split: sum.splits)
    with True "3.prems" obtain rest' k where p: "mergePassV alg dest1 rest = Inr (dest', rest', k)"
      by (auto split: sum.splits)
    from integrate_mono[OF i "3.prems"(2)] have "isInVersion x (version dest1)" .
    from "3.IH"(2)[OF _ i p this] True show ?thesis by simp
  qed
qed

lemma covered_mono:
  "covered v orig ms \<Longrightarrow> (\<And>x. isInVersion x v \<Longrightarrow> isInVersion x v') \<Longrightarrow> covered v' orig ms"
  unfolding covered_def by (erule list_all2_mono) auto

lemma pending_Cons [simp]:
  "pending (None # ms) = pending ms" "pending (Some x # ms) = pending ms + 1"
  by (simp_all add: pending_def)

lemma pending_nonneg: "0 \<le> pending ms"
  by (simp add: pending_def)

lemma mergePassV_covered:
  "mergePassV alg dest ms = Inr (dest', ms', n) \<Longrightarrow> covered (version dest) orig ms
   \<Longrightarrow> covered (version dest') orig ms' \<and> pending ms' = pending ms - int n"
proof (induction alg dest ms arbitrary: dest' ms' n orig rule: mergePassV.induct)
  case (1 alg dest)
  then show ?case by (simp add: covered_def)
next
  case (2 alg dest rest)
  from "2.prems"(2) obtain o1 orig' where o: "orig = o1 # orig'"
    and c: "covered (version dest) orig' rest" and h: "isInVersion (Some (ident o1)) (version dest)"
    by (auto simp: covered_def list_all2_Cons2)
  from "2.prems"(1) obtain rest' where p: "mergePassV alg dest rest = Inr (dest', rest', n)"
    and m: "ms' = None # rest'" by (auto split: sum.splits)
  from "2.IH"[OF p c] mergePassV_mono[OF p h] o m show ?case
    by (simp add: covered_def)
next
  case (3 alg dest op rest)
  from "3.prems"(2) obtain orig' where o: "orig = op # orig'"
    and c: "covered (version dest) orig' rest"
    by (auto simp: covered_def list_all2_Cons2)
  show ?case
  proof (cases "canInsertNow op dest")
    case False
    with "3.prems"(1) obtain rest' where p: "mergePassV alg dest rest = Inr (dest', rest', n)"
      and m: "ms' = Some op # rest'" by (auto split: sum.splits)
    from "3.IH"(1)[OF _ p c] False o m show ?thesis by (simp add: covered_def)
  next
    case True
    with "3.prems"(1) obtain dest1 where i: "integrate alg dest op (-1) = Inr dest1"
      by (auto split: sum.splits)
    with True "3.prems"(1) obtain rest' k where p: "mergePassV alg dest1 rest = Inr (dest', rest', k)"
      and m: "ms' = None # rest'" and n: "n = k + 1"
      by (auto split: sum.splits)
    have c1: "covered (version dest1) orig' rest"
      by (rule covered_mono[OF c]) (rule integrate_mono[OF i])
    from mergePassV_mono[OF p integrate_inVersion[OF i]]
    have "isInVersion (Some (ident op)) (version dest')" .
    with "3.IH"(2)[OF _ i p c1] True o m n show ?thesis by (simp add: covered_def)
  qed
qed

lemma covered_done:
  "covered v orig ms \<Longrightarrow> pending ms \<le> 0 \<Longrightarrow> \<forall>op \<in> set orig. isInVersion (Some (ident op)) v"
proof (induction orig arbitrary: ms)
  case Nil
  then show ?case by simp
next
  case (Cons o1 orig)
  from Cons.prems(1) obtain m ms' where ms: "ms = m # ms'"
    and hd: "m = Some o1 \<or> (m = None \<and> isInVersion (Some (ident o1)) v)"
    and c: "covered v orig ms'"
    by (auto simp: covered_def list_all2_Cons1)
  from Cons.prems(2) ms pending_nonneg[of ms'] have m: "m = None" and p: "pending ms' \<le> 0"
    by (cases m; simp)+
  from Cons.IH[OF c p] hd m show ?case by simp
qed

lemma mergeLoopV_done:
  "mergeLoopV alg dest ms remaining = Inr dest' \<Longrightarrow> covered (version dest) orig ms
   \<Longrightarrow> remaining = pending ms
   \<Longrightarrow> (\<forall>op \<in> set orig. isInVersion (Some (ident op)) (version dest'))
       \<and> (\<forall>x. isInVersion x (version dest) \<longrightarrow> isInVersion x (version dest'))"
proof (induction alg dest ms remaining arbitrary: orig rule: mergeLoopV.induct)
  case (1 alg dest missing remaining)
  show ?case
  proof (cases "remaining > 0")
    case False
    with "1.prems"(1) have "dest' = dest" by (subst (asm) mergeLoopV.simps) simp
    with covered_done[OF "1.prems"(2)] "1.prems"(3) False show ?thesis by simp
  next
    case True
    with "1.prems"(1) obtain d1 ms1 n where p: "mergePassV alg dest missing = Inr (d1, ms1, n)"
      and n: "n \<noteq> 0" and l: "mergeLoopV alg d1 ms1 (remaining - int n) = Inr dest'"
      by (subst (asm) mergeLoopV.simps) (auto split: sum.splits if_splits)
    from mergePassV_covered[OF p "1.prems"(2)] "1.prems"(3)
    have c: "covered (version d1) orig ms1" and r: "remaining - int n = pending ms1" by auto
    from "1.IH"[OF True p refl refl n l c r] mergePassV_mono[OF p] show ?thesis by blast
  qed
qed

lemma covered_init: "covered v orig (map Some orig)"
  by (induction orig) (auto simp: covered_def)

lemma pending_init: "pending (map Some orig) = int (length orig)"
  by (induction orig) (auto simp: pending_def)

text \<open>A repeated merge on values finds nothing missing.\<close>

lemma mergeIntoV_idempotent:
  assumes "mergeIntoV alg a b = Inr a'"
  shows "missingSet a' b = [] \<and> mergeIntoV alg a' b = Inr a'"
proof -
  let ?orig = "missingSet a b"
  from assms have l: "mergeLoopV alg a (map Some ?orig) (int (length (map Some ?orig))) = Inr a'"
    by (simp add: mergeIntoV_def missingSet_def Let_def)
  have "int (length (map Some ?orig)) = pending (map Some ?orig)" by (simp add: pending_init)
  from mergeLoopV_done[OF l covered_init this]
  have all: "\<forall>op \<in> set ?orig. isInVersion (Some (ident op)) (version a')"
    and mono: "\<forall>x. isInVersion x (version a) \<longrightarrow> isInVersion x (version a')" by auto
  have "\<forall>op \<in> set (contentD b). content op \<noteq> None \<longrightarrow> isInVersion (Some (ident op)) (version a')"
  proof (intro ballI impI)
    fix op assume "op \<in> set (contentD b)" "content op \<noteq> None"
    then show "isInVersion (Some (ident op)) (version a')"
      using all mono by (cases "isInVersion (Some (ident op)) (version a)") (auto simp: missingSet_def)
  qed
  then have e: "missingSet a' b = []" by (auto simp: missingSet_def filter_empty_conv)
  then have "mergeIntoV alg a' b = Inr a'"
    by (simp add: mergeIntoV_def missingSet_def Let_def mergeLoopV.simps)
  with e show ?thesis by simp
qed

text \<open>
  C9. For every algorithm, every heap and every pair of documents \<open>a\<close>, \<open>b\<close> whose
  references are addresses of the heap: when \<open>mergeInto(a, b)\<close> succeeds and leaves \<open>a'\<close>,
  the missing set of a repeated \<open>mergeInto(a', b)\<close> is empty and the repeated call returns
  the heap and \<open>a'\<close> as they are, so content, version, length and maxSeq are unchanged.
\<close>

theorem mergeInto_idempotent:
  assumes "mergeInto alg h a b = Inr (h', a')" and "valid h a" and "valid h b"
  shows "missingSet (view h' a') (view h' b) = [] \<and> mergeInto alg h' a' b = Inr (h', a')"
proof -
  from view_mergeInto[OF assms(2,3), of alg] assms(1)
  have v: "mergeIntoV alg (view h a) (view h b) = Inr (view h' a')" by (simp add: viewOut_def)
  from mergeInto_heap[OF assms(2,3), of alg] assms(1) obtain xs where h': "h' = h @ xs" by auto
  have b: "view h' b = view h b" unfolding h' by (rule view_append[OF assms(3)])
  from mergeIntoV_idempotent[OF v] b have e: "missingSet (view h' a') (view h' b) = []" by simp
  have "map (map_option ((!) h')) (map Some (filter (\<lambda>x. content (h' ! x) \<noteq> None
        \<and> \<not> isInVersion (Some (ident (h' ! x))) (versionR a')) (refs b))) = []"
    unfolding missing_view e by simp
  then have "filter (\<lambda>x. content (h' ! x) \<noteq> None
        \<and> \<not> isInVersion (Some (ident (h' ! x))) (versionR a')) (refs b) = []" by simp
  then have "mergeInto alg h' a' b = Inr (h', a')"
    by (simp add: mergeInto_def Let_def mergeLoop.simps)
  with e show ?thesis by simp
qed

theorem mergeInto_idempotent_witness:
  "valid (contentD tombDoc) newRDoc \<and> valid (contentD tombDoc) (docRefs tombDoc)
   \<and> (\<exists>h d. mergeInto yjsMod (contentD tombDoc) newRDoc (docRefs tombDoc) = Inr (h, d)
       \<and> getArray (view h d) = [''a'']
       \<and> missingSet (view h d) (view h (docRefs tombDoc)) = []
       \<and> mergeInto yjsMod h d (docRefs tombDoc) = Inr (h, d))"
proof -
  let ?h = "contentD tombDoc" and ?b = "docRefs tombDoc"
  have va: "valid ?h newRDoc" by (simp add: valid_def newRDoc_def)
  have vb: "valid ?h ?b" by (rule valid_docRefs)
  have n: "view ?h newRDoc = newDoc" by (simp add: view_def newRDoc_def newDoc_def)
  have "shown (mergeIntoV yjsMod newDoc tombDoc) = Inr [''a'']" by code_simp
  from shown_Inr[OF this] obtain dv where dv: "mergeIntoV yjsMod newDoc tombDoc = Inr dv"
    and g: "getArray dv = [''a'']" by auto
  from view_mergeInto[OF va vb, of yjsMod] dv n
  have "viewOut (mergeInto yjsMod ?h newRDoc ?b) = Inr dv" by (simp add: view_docRefs)
  then obtain h d where m: "mergeInto yjsMod ?h newRDoc ?b = Inr (h, d)" and d: "view h d = dv"
    by (auto simp: viewOut_def split: sum.splits)
  from mergeInto_idempotent[OF m va vb] m d g va vb show ?thesis by auto
qed

subsection \<open>Length coherence\<close>

text \<open>
  On the document it is applied to, read as a value, each operation keeps \<open>length\<close> equal
  to the number of items that have content and are not deleted (an item without content
  being integrated under Sync9 only).
\<close>

lemma visibleCount_append: "visibleCount (xs @ ys) = visibleCount xs + visibleCount ys"
  by (simp add: visibleCount_def)

lemma visibleCount_take_drop: "visibleCount (take k xs) + visibleCount (drop k xs) = visibleCount xs"
  using visibleCount_append[of "take k xs" "drop k xs"] by simp

lemma visibleCount_splice:
  "visibleCount (splice k x xs) = visibleCount xs + (if visible x then 1 else 0)"
  using visibleCount_take_drop[of "nat (let len = int (length xs) in if k < 0 then max (len + k) 0 else min k len)" xs]
  by (simp add: splice_def visibleCount_append visibleCount_Cons Let_def)

lemma visibleCount_update:
  "k < length xs \<Longrightarrow> visible (xs ! k) \<Longrightarrow>
   visibleCount (xs[k := (xs ! k)\<lparr>isDeleted := True\<rparr>]) = visibleCount xs - 1"
proof (induction xs arbitrary: k)
  case Nil
  then show ?case by simp
next
  case (Cons x xs)
  then show ?case
    by (cases k) (auto simp: visibleCount_Cons visible_def)
qed

lemma integrate_counts:
  assumes "integrate alg d N h = Inr d'"
  shows "visibleCount (contentD d') = visibleCount (contentD d) + (if visible N then 1 else 0)
       \<and> lengthD d' = lengthD d
            + (if \<not> isDeleted N \<and> (alg = sync9 \<longrightarrow> content N \<noteq> None) then 1 else 0)"
proof (cases alg)
  case yjs
  with assms show ?thesis
    by (auto simp: integrate_def integrateYjs_def Let_def commitItem_def visibleCount_splice
        split: if_splits sum.splits)
next
  case yjsMod
  with assms show ?thesis
    by (auto simp: integrate_def integrateYjsMod_def Let_def commitItem_def visibleCount_splice
        split: if_splits sum.splits)
next
  case automerge
  with assms show ?thesis
    by (auto simp: integrate_def integrateAutomerge_def Let_def commitItem_def visibleCount_splice
        split: if_splits sum.splits)
next
  case sync9
  have ph: "\<And>p. \<not> visible (p\<lparr>content := None\<rparr>)" by (simp add: visible_def)
  from sync9 assms show ?thesis
    by (auto simp: integrate_def integrateSync9_def Let_def commitSync9_def visibleCount_splice ph
        visible_def split: if_splits sum.splits option.splits)
qed

lemma integrate_coherent:
  assumes "integrate alg d N h = Inr d'" and "coherent d" and "alg = sync9 \<or> content N \<noteq> None"
  shows "coherent d'"
  using integrate_counts[OF assms(1)] assms(2,3) by (auto simp: coherent_def visible_def)

lemma localInsertOf_coherent:
  assumes "localInsertOf alg d agent pos c = Inr d'" and "coherent d"
  shows "coherent d'"
proof (cases alg)
  case sync9
  with assms(1) obtain N h where "integrate alg d N h = Inr d'" "content N \<noteq> None"
    by (auto simp: localInsertOf_def localInsertSync9_def split: sum.splits prod.splits)
  from integrate_coherent[OF this(1) assms(2)] this(2) show ?thesis by simp
next
  case yjs
  with assms(1) obtain N h where "integrate alg d N h = Inr d'" "content N \<noteq> None"
    by (auto simp: localInsertOf_def localInsert_def split: sum.splits)
  from integrate_coherent[OF this(1) assms(2)] this(2) show ?thesis by simp
next
  case yjsMod
  with assms(1) obtain N h where "integrate alg d N h = Inr d'" "content N \<noteq> None"
    by (auto simp: localInsertOf_def localInsert_def split: sum.splits)
  from integrate_coherent[OF this(1) assms(2)] this(2) show ?thesis by simp
next
  case automerge
  with assms(1) obtain N h where "integrate alg d N h = Inr d'" "content N \<noteq> None"
    by (auto simp: localInsertOf_def localInsert_def split: sum.splits)
  from integrate_coherent[OF this(1) assms(2)] this(2) show ?thesis by simp
qed

lemma localDeleteV_result:
  assumes "localDeleteV d agent pos = Inr d'"
  shows "\<exists>k < length (contentD d). visible (contentD d ! k)
     \<and> d' = d\<lparr>contentD := (contentD d)[k := (contentD d ! k)\<lparr>isDeleted := True\<rparr>],
               lengthD := lengthD d - 1\<rparr>"
proof -
  let ?L = "visibleCount (contentD d)"
  have "\<not> pos < 0" using assms findItemAtPos_loop_neg[of pos "contentD d" 0]
    by (auto simp: localDeleteV_def findItemAtPos_def)
  moreover have "\<not> pos > ?L" using assms findItemAtPos_loop_gt[of "contentD d" pos 0]
    by (auto simp: localDeleteV_def findItemAtPos_def)
  moreover have "pos \<noteq> ?L" using assms findItemAtPos_loop_eq[of pos "contentD d" 0]
    by (auto simp: localDeleteV_def findItemAtPos_def at_def)
  ultimately have "0 \<le> pos" "pos < ?L" by auto
  from findItemAtPos_loop_lt[OF this, of 0] obtain k where k: "k < length (contentD d)"
    "findItemAtPos_loop (contentD d) 0 pos False = Inr (0 + int k)" "visible (contentD d ! k)"
    by blast
  with assms show ?thesis
    by (intro exI[of _ k]) (auto simp: localDeleteV_def findItemAtPos_def at_def visible_def)
qed

lemma localDeleteV_coherent:
  assumes "localDeleteV d agent pos = Inr d'" and "coherent d"
  shows "coherent d'"
proof -
  from localDeleteV_result[OF assms(1)] obtain k where "k < length (contentD d)"
    "visible (contentD d ! k)"
    "d' = d\<lparr>contentD := (contentD d)[k := (contentD d ! k)\<lparr>isDeleted := True\<rparr>],
               lengthD := lengthD d - 1\<rparr>" by blast
  with assms(2) visibleCount_update[of k "contentD d"] show ?thesis by (simp add: coherent_def)
qed




text \<open>
  C4 fails on the code, against the comment of \<open>Doc.length\<close> ("Number of items not
  deleted"). Agent A inserts \<open>x\<close> into a new document \<open>a\<close>, a new document \<open>b\<close> merges \<open>a\<close>,
  and A deletes \<open>x\<close> from \<open>a\<close>. The merge hands \<open>b\<close> the item object of \<open>a\<close>; the delete
  sets \<open>isDeleted\<close> on that object and decrements the \<open>length\<close> of \<open>a\<close> only. Afterwards \<open>b\<close>
  still has \<open>length = 1\<close>, and read through the heap it has no item that is not deleted:
  its visible length is 0 and \<open>getArray\<close> is empty.
\<close>

theorem length_coherence_shared:
  "localInsertOfRef yjsMod [] newRDoc ''A'' 0 ''x'' = Inr ([sharedItem], sharedDoc)
   \<and> mergeInto yjsMod [sharedItem] newRDoc sharedDoc = Inr ([sharedItem], sharedDoc)
   \<and> lengthR sharedDoc = visibleCount (contentD (view [sharedItem] sharedDoc))
   \<and> localDelete [sharedItem] sharedDoc ''A'' 0
        = Inr ([sharedItem\<lparr>isDeleted := True\<rparr>], sharedDoc\<lparr>lengthR := 0\<rparr>)
   \<and> lengthR sharedDoc = 1
   \<and> visibleCount (contentD (view [sharedItem\<lparr>isDeleted := True\<rparr>] sharedDoc)) = 0
   \<and> getArray (view [sharedItem\<lparr>isDeleted := True\<rparr>] sharedDoc) = []"
proof -
  have i: "integrateRef yjsMod [sharedItem] newRDoc 0 0 = Inr ([sharedItem], sharedDoc)"
    by (simp add: integrateRef_def integrateYjsModRef_def sharedItem_def sharedDoc_def makeItem_def
        newRDoc_def view_def lastSeenOf_def setVersionR_def findItem_def findItem2_def
        findRight_def scanYjsMod.simps commitRef_def splice_def)
  have a: "localInsertOfRef yjsMod [] newRDoc ''A'' 0 ''x'' = Inr ([sharedItem], sharedDoc)"
    using i
    by (simp add: localInsertOfRef_def localInsertRef_def findItemAtPos_def view_def newRDoc_def
        lastSeenOf_def idAt_def at_def sharedItem_def makeItem_def)
  have i2: "integrateRef yjsMod [sharedItem] newRDoc 0 (-1) = Inr ([sharedItem], sharedDoc)"
    by (simp add: integrateRef_def integrateYjsModRef_def sharedItem_def sharedDoc_def makeItem_def
        newRDoc_def view_def lastSeenOf_def setVersionR_def findItem_def findItem2_def
        findRight_def scanYjsMod.simps commitRef_def splice_def)
  have c: "canInsertNow sharedItem (view [sharedItem] newRDoc)"
    by (simp add: canInsertNow_def sharedItem_def makeItem_def view_def newRDoc_def isInVersion_def)
  have f: "filter (\<lambda>a. content ([sharedItem] ! a) \<noteq> None
        \<and> \<not> isInVersion (Some (ident ([sharedItem] ! a))) (versionR newRDoc)) (refs sharedDoc) = [0]"
    by (simp add: sharedDoc_def sharedItem_def makeItem_def newRDoc_def isInVersion_def)
  have b: "mergeInto yjsMod [sharedItem] newRDoc sharedDoc = Inr ([sharedItem], sharedDoc)"
    unfolding mergeInto_def Let_def f
    using c i2 by (simp add: mergeLoop.simps)
  have l: "lengthR sharedDoc = 1" by (simp add: sharedDoc_def)
  have v1: "visibleCount (contentD (view [sharedItem] sharedDoc)) = 1"
    by (simp add: sharedDoc_def sharedItem_def makeItem_def visibleCount_def visible_def)
  have d: "localDelete [sharedItem] sharedDoc ''A'' 0
        = Inr ([sharedItem\<lparr>isDeleted := True\<rparr>], sharedDoc\<lparr>lengthR := 0\<rparr>)"
    by (simp add: localDelete_def findItemAtPos_def view_def sharedDoc_def sharedItem_def
        makeItem_def at_def)
  have v0: "visibleCount (contentD (view [sharedItem\<lparr>isDeleted := True\<rparr>] sharedDoc)) = 0"
    by (simp add: sharedDoc_def visibleCount_def visible_def)
  have g: "getArray (view [sharedItem\<lparr>isDeleted := True\<rparr>] sharedDoc) = []"
    by (simp add: sharedDoc_def getArray_def)
  from a b l v1 d v0 g show ?thesis by simp
qed

subsection \<open>The Automerge fast path\<close>






















subsection \<open>Confluence of the YjsMod integrate\<close>

text \<open>Words of decisions: how the slot moves when one decision is inserted.\<close>

lemma insAt_0 [simp]: "insAt 0 x xs = x # xs"
  by (simp add: insAt_def)

lemma insAt_Suc [simp]: "insAt (Suc k) x (y # ys) = y # insAt k x ys"
  by (simp add: insAt_def)

lemma insAt_Nil [simp]: "insAt k x [] = [x]"
  by (simp add: insAt_def)

lemma slotT_slot: "slotT w = Some k \<Longrightarrow> k = slot w"
  by (induction w arbitrary: k) (auto split: cls.splits option.splits)

lemma slot_le: "slot w \<le> length w"
  and slotT_le: "slotT w = Some k \<Longrightarrow> k \<le> length w"
  by (induction w arbitrary: k) (auto split: cls.splits option.splits)

lemma ins_Skip:
  "j \<le> length w \<Longrightarrow> slot (insAt j Skip w) = slot w + (if j \<le> slot w then 1 else 0)"
  "j \<le> length w \<Longrightarrow> slotT (insAt j Skip w) = map_option (\<lambda>k. k + (if j \<le> k then 1 else 0)) (slotT w)"
proof (induction w arbitrary: j)
  case Nil
  { case 1 then show ?case by simp }
  { case 2 then show ?case by simp }
next
  case (Cons c w)
  { case 1 then show ?case using Cons.IH
      by (cases j) (auto split: cls.splits option.splits) }
  { case 2 then show ?case using Cons.IH
      by (cases j) (auto split: cls.splits option.splits simp: option.map_comp comp_def) }
qed

lemma ins_Stop:
  "j \<le> length w \<Longrightarrow> slot w \<le> j \<Longrightarrow> slot (insAt j Stop w) = slot w"
  "j \<le> length w \<Longrightarrow> slotT w = None \<Longrightarrow> slotT (insAt j Stop w) = None"
  "j \<le> length w \<Longrightarrow> slotT w = Some k \<Longrightarrow> k \<le> j \<Longrightarrow> slotT (insAt j Stop w) = Some k"
proof (induction w arbitrary: j k)
  case Nil
  { case 1 then show ?case by simp }
  { case 2 then show ?case by simp }
  { case 3 then show ?case by simp }
next
  case (Cons c w)
  { case 1 then show ?case using Cons.IH
      by (cases j) (auto split: cls.splits option.splits) }
  { case 2 then show ?case using Cons.IH
      by (cases j) (auto split: cls.splits option.splits) }
  { case 3 then show ?case using Cons.IH
      by (cases j) (auto split: cls.splits option.splits) }
qed

lemma ins_Adv:
  "j \<le> length w \<Longrightarrow> j \<le> slot w \<Longrightarrow> slot (insAt j Adv w) = Suc (slot w)"
  "j \<le> length w \<Longrightarrow> slotT w = Some k \<Longrightarrow> j \<le> k \<Longrightarrow> slotT (insAt j Adv w) = Some (Suc k)"
proof (induction w arbitrary: j k)
  case Nil
  { case 1 then show ?case by simp }
  { case 2 then show ?case by simp }
next
  case (Cons c w)
  { case 1 then show ?case using Cons.IH
      by (cases j) (auto split: cls.splits option.splits) }
  { case 2 then show ?case using Cons.IH
      by (cases j) (auto split: cls.splits option.splits dest: slotT_slot) }
qed

lemma ins_far:
  "j \<le> length w \<Longrightarrow> s < j \<Longrightarrow> w ! s = Stop \<Longrightarrow> slot (insAt j c w) = slot w"
  "j \<le> length w \<Longrightarrow> s < j \<Longrightarrow> w ! s = Stop \<Longrightarrow> slotT (insAt j c w) = slotT w"
proof (induction w arbitrary: j s)
  case Nil
  { case 1 then show ?case by simp }
  { case 2 then show ?case by simp }
next
  case (Cons c' w)
  { case 1 then show ?case using Cons.IH
      by (cases j; cases s) (auto split: cls.splits option.splits) }
  { case 2 then show ?case using Cons.IH
      by (cases j; cases s) (auto split: cls.splits option.splits) }
qed

lemma slotT_Adv: "a < slot w \<Longrightarrow> w ! a = Adv \<Longrightarrow> slotT w = Some (slot w)"
proof (induction w arbitrary: a)
  case Nil
  then show ?case by simp
next
  case (Cons c w)
  then show ?case
    by (cases a) (auto split: cls.splits option.splits dest: slotT_slot)
qed

lemma ins_Tent:
  "j \<le> length w \<Longrightarrow> slot w \<le> j \<Longrightarrow> slot (insAt j Tent w) = slot w"
  "j \<le> length w \<Longrightarrow> j \<le> a \<Longrightarrow> a < slot w \<Longrightarrow> w ! a = Adv \<Longrightarrow> slot (insAt j Tent w) = Suc (slot w)"
  "j \<le> length w \<Longrightarrow> slotT w = None \<Longrightarrow> slotT (insAt j Tent w) = None"
  "j \<le> length w \<Longrightarrow> slotT w = Some k \<Longrightarrow> k \<le> j \<Longrightarrow> slotT (insAt j Tent w) = Some k"
  "j \<le> length w \<Longrightarrow> slotT w = Some k \<Longrightarrow> j \<le> a \<Longrightarrow> a < k \<Longrightarrow> w ! a = Adv
     \<Longrightarrow> slotT (insAt j Tent w) = Some (Suc k)"
proof (induction w arbitrary: j k a)
  case Nil
  { case 1 then show ?case by simp }
  { case 2 then show ?case by simp }
  { case 3 then show ?case by simp }
  { case 4 then show ?case by simp }
  { case 5 then show ?case by simp }
next
  case (Cons c w)
  { case 1 then show ?case using Cons.IH(1,3,4)
      by (cases j) (auto split: cls.splits option.splits) }
  { case 2 then show ?case using Cons.IH(2,5)
      by (cases j; cases a) (auto split: cls.splits option.splits dest: slotT_slot slotT_Adv) }
  { case 3 then show ?case using Cons.IH(1,3,4)
      by (cases j) (auto split: cls.splits option.splits) }
  { case 4 then show ?case using Cons.IH(1,3,4)
      by (cases j) (auto split: cls.splits option.splits) }
  { case 5 then show ?case using Cons.IH(2,5)
      by (cases j; cases a) (auto split: cls.splits option.splits dest: slotT_slot slotT_Adv) }
qed

lemma slotT_Some_Adv: "slotT w = Some k \<Longrightarrow> \<exists>a<k. w ! a = Adv"
proof (induction w arbitrary: k)
  case Nil
  then show ?case by simp
next
  case (Cons c w)
  show ?case
  proof (cases c)
    case Adv
    with Cons.prems show ?thesis by auto
  next
    case Stop
    with Cons.prems show ?thesis by simp
  next
    case Tent
    with Cons.prems obtain k' where k: "slotT w = Some k'" "k = Suc k'" by auto
    from Cons.IH[OF k(1)] obtain a where "a < k'" "w ! a = Adv" by auto
    then have "Suc a < k \<and> (c # w) ! Suc a = Adv" using k by simp
    then show ?thesis by blast
  next
    case Skip
    with Cons.prems obtain k' where k: "slotT w = Some k'" "k = Suc k'" by auto
    from Cons.IH[OF k(1)] obtain a where "a < k'" "w ! a = Adv" by auto
    then have "Suc a < k \<and> (c # w) ! Suc a = Adv" using k by simp
    then show ?thesis by blast
  qed
qed

lemma slotT_None_Adv: "slotT w = None \<Longrightarrow> i < length w \<Longrightarrow> w ! i = Adv \<Longrightarrow> \<exists>s<i. w ! s = Stop"
proof (induction w arbitrary: i)
  case Nil
  then show ?case by simp
next
  case (Cons c w)
  show ?case
  proof (cases "c = Stop")
    case True
    with Cons.prems have "0 < i \<and> (c # w) ! 0 = Stop" by (cases i) auto
    then show ?thesis by blast
  next
    case False
    with Cons.prems have n: "slotT w = None" "c \<noteq> Adv" by (auto split: cls.splits)
    with Cons.prems obtain i' where i: "i = Suc i'" by (cases i) auto
    with Cons.prems have "i' < length w" "w ! i' = Adv" by auto
    from Cons.IH[OF n(1) this] obtain s where "s < i'" "w ! s = Stop" by auto
    then have "Suc s < i \<and> (c # w) ! Suc s = Stop" using i by simp
    then show ?thesis by blast
  qed
qed

lemma slot_no_Stop: "i < slot w \<Longrightarrow> w ! i \<noteq> Stop"
proof (induction w arbitrary: i)
  case Nil
  then show ?case by simp
next
  case (Cons c w)
  then show ?case
    by (cases i) (auto split: cls.splits option.splits dest: slotT_slot)
qed

lemma slot_at: "slot w < length w \<Longrightarrow> w ! slot w = Tent \<or> w ! slot w = Stop"
proof (induction w)
  case Nil
  then show ?case by simp
next
  case (Cons c w)
  then show ?case
    by (auto split: cls.splits option.splits dest: slotT_slot)
qed

lemma slot_Adv_after:
  "slot w \<le> i \<Longrightarrow> i < length w \<Longrightarrow> w ! i = Adv \<Longrightarrow> \<exists>s. slot w \<le> s \<and> s < i \<and> w ! s = Stop"
proof (induction w arbitrary: i)
  case Nil
  then show ?case by simp
next
  case (Cons c w)
  show ?case
  proof (cases "slot (c # w)")
    case 0
    show ?thesis
    proof (cases "c = Stop")
      case True
      with Cons.prems have "0 < i \<and> (c # w) ! 0 = Stop" by (cases i) auto
      with 0 show ?thesis by auto
    next
      case False
      with 0 have n: "c = Tent" "slotT w = None" by (auto split: cls.splits option.splits)
      with Cons.prems obtain i' where i: "i = Suc i'" by (cases i) auto
      with Cons.prems have "i' < length w" "w ! i' = Adv" by auto
      from slotT_None_Adv[OF n(2) this] obtain s where "s < i'" "w ! s = Stop" by auto
      then have "Suc s < i \<and> (c # w) ! Suc s = Stop" using i by simp
      with 0 show ?thesis by (metis le0)
    qed
  next
    case (Suc k)
    then have k: "k = slot w" by (auto split: cls.splits option.splits dest: slotT_slot)
    with Cons.prems Suc obtain i' where i: "i = Suc i'" by (cases i) auto
    with Cons.prems Suc k have "slot w \<le> i'" "i' < length w" "w ! i' = Adv" by auto
    from Cons.IH[OF this] obtain s where "slot w \<le> s" "s < i'" "w ! s = Stop" by auto
    then have "slot (c # w) \<le> Suc s \<and> Suc s < i \<and> (c # w) ! Suc s = Stop" using i Suc k by simp
    then show ?thesis by blast
  qed
qed

lemma slot_Tent_before:
  "t < slot w \<Longrightarrow> w ! t = Tent \<Longrightarrow> \<exists>a. t < a \<and> a < slot w \<and> w ! a = Adv"
proof (induction w arbitrary: t)
  case Nil
  then show ?case by simp
next
  case (Cons c w)
  from Cons.prems obtain k where Suc: "slot (c # w) = Suc k" by (cases "slot (c # w)") auto
  then have k: "k = slot w" by (auto split: cls.splits option.splits dest: slotT_slot)
  show ?case
  proof (cases t)
    case 0
    with Cons.prems have "c = Tent" by simp
    with Suc have "slotT w = Some k" by (auto split: option.splits)
    from slotT_Some_Adv[OF this] obtain a where "a < k" "w ! a = Adv" by auto
    then have "t < Suc a \<and> Suc a < slot (c # w) \<and> (c # w) ! Suc a = Adv" using 0 Suc by simp
    then show ?thesis by blast
  next
    case (Suc t')
    with Cons.prems k \<open>slot (c # w) = Suc k\<close> have "t' < slot w" "w ! t' = Tent" by auto
    from Cons.IH[OF this] obtain a where "t' < a" "a < slot w" "w ! a = Adv" by auto
    then have "t < Suc a \<and> Suc a < slot (c # w) \<and> (c # w) ! Suc a = Adv"
      using Suc k \<open>slot (c # w) = Suc k\<close> by simp
    then show ?thesis by blast
  qed
qed

lemma insAt_commute:
  "i \<le> j \<Longrightarrow> j \<le> length xs \<Longrightarrow> insAt (Suc j) b (insAt i a xs) = insAt i a (insAt j b xs)"
proof (induction xs arbitrary: i j)
  case Nil
  then show ?case by simp
next
  case (Cons x xs)
  then show ?case by (cases i; cases j) auto
qed

lemma sib_EQ_le:
  assumes len: "length wx = length wy"
    and rel: "\<And>i. i < length wx \<Longrightarrow> wx ! i = wy ! i \<or> (wx ! i = Stop \<and> wy ! i = Adv)"
  shows "slot wx \<le> slot wy"
proof (rule ccontr)
  assume "\<not> slot wx \<le> slot wy"
  then have lt: "slot wy < slot wx" by simp
  have lx: "slot wx \<le> length wx" by (rule slot_le)
  with lt len have ly: "slot wy < length wy" by simp
  from slot_at[OF ly] show False
  proof
    assume "wy ! slot wy = Stop"
    with rel[of "slot wy"] ly len have "wx ! slot wy = Stop" by auto
    with slot_no_Stop[OF lt] show False by simp
  next
    assume t: "wy ! slot wy = Tent"
    with rel[of "slot wy"] ly len have "wx ! slot wy = Tent" by auto
    from slot_Tent_before[OF lt this] obtain a where a: "slot wy < a" "a < slot wx" "wx ! a = Adv"
      by auto
    with rel[of a] lx have "wy ! a = Adv" by auto
    from slot_Adv_after[OF _ _ this] a lx len obtain s where s: "slot wy \<le> s" "s < a" "wy ! s = Stop"
      by auto
    with rel[of s] a lx have "wx ! s = Stop" by auto
    moreover have "s < slot wx" using s a by simp
    ultimately show False using slot_no_Stop by blast
  qed
qed

lemma sib_EQ:
  assumes len: "length wx = length wy"
    and rel: "\<And>i. i < length wx \<Longrightarrow> wx ! i = wy ! i \<or> (wx ! i = Stop \<and> wy ! i = Adv)"
  shows "slot (insAt (slot wy) Stop wx) = slot wx"
    and "slot (insAt (slot wx) Adv wy) = Suc (slot wy)"
proof -
  have le: "slot wx \<le> slot wy" by (rule sib_EQ_le[OF len rel])
  have "slot wy \<le> length wx" using slot_le[of wy] len by simp
  then show "slot (insAt (slot wy) Stop wx) = slot wx" using le by (rule ins_Stop(1))
  have "slot wx \<le> length wy" using slot_le[of wx] len by simp
  then show "slot (insAt (slot wx) Adv wy) = Suc (slot wy)" using le by (rule ins_Adv(1))
qed

lemma sib_LT_between:
  assumes len: "length wx = length wy"
    and r1: "\<And>i. i < length wx \<Longrightarrow> wx ! i = Tent \<Longrightarrow> wy ! i = Tent \<or> wy ! i = Stop"
    and r2: "\<And>i. i < length wx \<Longrightarrow> wy ! i = Adv \<Longrightarrow> wx ! i = Adv \<or> wx ! i = Stop"
    and r3: "\<And>i. i < length wx \<Longrightarrow> wx ! i = Stop \<Longrightarrow> wy ! i \<noteq> Skip"
    and lt: "slot wx < slot wy"
  shows "\<exists>s. slot wx \<le> s \<and> s < slot wy \<and> wx ! s = Stop"
    and "\<exists>a. slot wx \<le> a \<and> a < slot wy \<and> wy ! a = Adv"
proof -
  have ly: "slot wy \<le> length wy" by (rule slot_le)
  with lt len have lx: "slot wx < length wx" by simp
  have yns: "wy ! slot wx \<noteq> Stop" using slot_no_Stop[OF lt] .
  have both: "(\<exists>s. slot wx \<le> s \<and> s < slot wy \<and> wx ! s = Stop)
      \<and> (\<exists>a. slot wx \<le> a \<and> a < slot wy \<and> wy ! a = Adv)"
  proof (cases "wy ! slot wx = Adv")
    case True
    from r2[OF lx True] have "wx ! slot wx = Adv \<or> wx ! slot wx = Stop" .
    with slot_at[OF lx] have "wx ! slot wx = Stop" by auto
    with True lt show ?thesis by blast
  next
    case False
    have "wy ! slot wx = Tent"
    proof (cases "wx ! slot wx = Tent")
      case True
      from r1[OF lx True] yns show ?thesis by simp
    next
      case F: False
      with slot_at[OF lx] have "wx ! slot wx = Stop" by simp
      from r3[OF lx this] yns False show ?thesis by (cases "wy ! slot wx") auto
    qed
    from slot_Tent_before[OF lt this] obtain a where a: "slot wx < a" "a < slot wy" "wy ! a = Adv"
      by auto
    then have ax: "a < length wx" using ly len by simp
    from r2[OF ax a(3)] have "wx ! a = Adv \<or> wx ! a = Stop" .
    then have "\<exists>s. slot wx \<le> s \<and> s < slot wy \<and> wx ! s = Stop"
    proof
      assume "wx ! a = Stop"
      with a show ?thesis by (metis less_imp_le)
    next
      assume "wx ! a = Adv"
      from slot_Adv_after[OF _ ax this] a obtain s where "slot wx \<le> s" "s < a" "wx ! s = Stop"
        by auto
      with a show ?thesis by (metis less_trans)
    qed
    moreover have "\<exists>a. slot wx \<le> a \<and> a < slot wy \<and> wy ! a = Adv" using a by (metis less_imp_le)
    ultimately show ?thesis by simp
  qed
  from both show "\<exists>s. slot wx \<le> s \<and> s < slot wy \<and> wx ! s = Stop" by simp
  from both show "\<exists>a. slot wx \<le> a \<and> a < slot wy \<and> wy ! a = Adv" by simp
qed

lemma sib_LT:
  assumes len: "length wx = length wy"
    and r1: "\<And>i. i < length wx \<Longrightarrow> wx ! i = Tent \<Longrightarrow> wy ! i = Tent \<or> wy ! i = Stop"
    and r2: "\<And>i. i < length wx \<Longrightarrow> wy ! i = Adv \<Longrightarrow> wx ! i = Adv \<or> wx ! i = Stop"
    and r3: "\<And>i. i < length wx \<Longrightarrow> wx ! i = Stop \<Longrightarrow> wy ! i \<noteq> Skip"
  shows "slot (insAt (slot wy) Adv wx) = slot wx + (if slot wy \<le> slot wx then 1 else 0)"
    and "slot (insAt (slot wx) Tent wy) = slot wy + (if slot wx < slot wy then 1 else 0)"
proof -
  have ly: "slot wy \<le> length wx" using slot_le[of wy] len by simp
  have lx: "slot wx \<le> length wy" using slot_le[of wx] len by simp
  show "slot (insAt (slot wy) Adv wx) = slot wx + (if slot wy \<le> slot wx then 1 else 0)"
  proof (cases "slot wy \<le> slot wx")
    case True
    with ins_Adv(1)[OF ly True] show ?thesis by simp
  next
    case False
    then have lt: "slot wx < slot wy" by simp
    from sib_LT_between(1)[OF len r1 r2 r3 lt] obtain s where
      s: "s < slot wy" "wx ! s = Stop" by blast
    from ins_far(1)[OF ly s] False show ?thesis by simp
  qed
  show "slot (insAt (slot wx) Tent wy) = slot wy + (if slot wx < slot wy then 1 else 0)"
  proof (cases "slot wx < slot wy")
    case False
    then have "slot wy \<le> slot wx" by simp
    from ins_Tent(1)[OF lx this] False show ?thesis by simp
  next
    case True
    from sib_LT_between(2)[OF len r1 r2 r3 True] obtain a where
      a: "slot wx \<le> a" "a < slot wy" "wy ! a = Adv" by blast
    from ins_Tent(2)[OF lx a] True show ?thesis by simp
  qed
qed

text \<open>The scan of \<open>integrateYjsMod\<close> computes \<open>slot\<close> of the word of its decisions.\<close>

lemma idx_le: "idx i xs \<le> length xs"
  by (induction xs) auto

lemma idx_lt: "idx i xs < length xs \<longleftrightarrow> i \<in> ident ` set xs"
  by (induction xs) auto

lemma nth_idx: "i \<in> ident ` set xs \<Longrightarrow> ident (xs ! idx i xs) = i"
  by (induction xs) auto

lemma idx_nth: "distinct (map ident xs) \<Longrightarrow> n < length xs \<Longrightarrow> idx (ident (xs ! n)) xs = n"
proof (induction xs arbitrary: n)
  case Nil
  then show ?case by simp
next
  case (Cons c cs)
  then show ?case by (cases n) auto
qed

lemma findIndex_idx:
  "i \<in> ident ` set xs \<Longrightarrow> findIndex (\<lambda>item. ident item = i) xs = int (idx i xs)"
  by (induction xs) (auto simp: Let_def)

lemma findItem_lft:
  "h < 0 \<Longrightarrow> known (contentD doc) orig \<Longrightarrow> findItem doc orig h = Inr (int (lft (contentD doc) orig) - 1)"
  by (cases orig)
     (auto simp: findItem_def findItem2_def known_def lft_def matches_False findIndex_idx Let_def)

lemma findRight_rgt:
  "h < 0 \<Longrightarrow> known (contentD doc) orig \<Longrightarrow> findRight doc orig h = Inr (int (rgt (contentD doc) orig))"
  by (cases orig)
     (auto simp: findRight_def findItem_def findItem2_def known_def rgt_def matches_False findIndex_idx Let_def)

lemma rgt_eq_index:
  assumes "distinct (map ident xs)" "n < length xs"
  shows "(int n = int (rgt xs orig)) = (Some (ident (xs ! n)) = orig)"
proof (cases orig)
  case None
  with assms show ?thesis by (simp add: rgt_def)
next
  case (Some r)
  show ?thesis
  proof
    assume "int n = int (rgt xs orig)"
    then have "idx r xs = n" using Some by (simp add: rgt_def)
    with assms(2) have "r \<in> ident ` set xs" using idx_lt[of r xs] by simp
    from nth_idx[OF this] \<open>idx r xs = n\<close> Some show "Some (ident (xs ! n)) = orig" by simp
  next
    assume "Some (ident (xs ! n)) = orig"
    with Some have "r = ident (xs ! n)" by simp
    with idx_nth[OF assms] Some show "int n = int (rgt xs orig)" by (simp add: rgt_def)
  qed
qed

lemma scanYjsMod_slot:
  assumes d: "distinct (map ident (contentD doc))" and ok: "originsKnown (contentD doc)"
  shows "n \<le> length (contentD doc) \<Longrightarrow>
    scanYjsMod doc N (-1) (int (lft (contentD doc) (originLeft N)) - 1)
        (int (rgt (contentD doc) (originRight N))) (int n) destIdx scanning
    = Inr (if scanning
           then (case slotT (map (letter (contentD doc) N) (drop n (contentD doc))) of
                   None \<Rightarrow> destIdx | Some k \<Rightarrow> int n + int k)
           else int n + int (slot (map (letter (contentD doc) N) (drop n (contentD doc)))))"
proof (induction "length (contentD doc) - n" arbitrary: n destIdx scanning rule: less_induct)
  case less
  let ?xs = "contentD doc"
  show ?case
  proof (cases "n = length ?xs")
    case True
    then show ?thesis by (subst scanYjsMod.simps) (simp add: Let_def)
  next
    case False
    with less.prems have lt: "n < length ?xs" by simp
    have dr: "drop n ?xs = ?xs ! n # drop (Suc n) ?xs"
      using lt by (simp add: Cons_nth_drop_Suc)
    have at: "at ?xs (int n) = Some (?xs ! n)" using lt by (simp add: at_def)
    have mem: "?xs ! n \<in> set ?xs" using lt by simp
    with ok have kn: "known ?xs (originLeft (?xs ! n))" "known ?xs (originRight (?xs ! n))"
      by (auto simp: originsKnown_def)
    have fl: "findItem doc (originLeft (?xs ! n)) (-1 - 1) = Inr (int (lft ?xs (originLeft (?xs ! n))) - 1)"
      by (rule findItem_lft[OF _ kn(1)]) simp
    have fr: "findRight doc (originRight (?xs ! n)) (-1) = Inr (int (rgt ?xs (originRight (?xs ! n))))"
      by (rule findRight_rgt[OF _ kn(2)]) simp
    have IH: "\<And>d s. scanYjsMod doc N (-1) (int (lft ?xs (originLeft N)) - 1)
        (int (rgt ?xs (originRight N))) (int n + 1) d s
      = Inr (if s then (case slotT (map (letter ?xs N) (drop (Suc n) ?xs)) of
                   None \<Rightarrow> d | Some k \<Rightarrow> int (Suc n) + int k)
           else int (Suc n) + int (slot (map (letter ?xs N) (drop (Suc n) ?xs))))"
      using less.hyps[of "Suc n"] lt by (simp add: add.commute)
    have ne: "int n \<noteq> int (length ?xs)" using lt by simp
    show ?thesis
      apply (subst scanYjsMod.simps)
      apply (simp only: Let_def ne if_False at option.case fl fr sum.case IH dr list.map
          rgt_eq_index[OF d lt])
      apply (auto simp: letter_def split: option.splits)
      done
  qed
qed

text \<open>Positions and decisions after a splice.\<close>

lemma slot_le_length: "slot w \<le> length w"
  by (rule slot_le)

lemma length_insAt [simp]: "length (insAt m z xs) = Suc (length xs)"
  by (simp add: insAt_def)

lemma set_insAt [simp]: "set (insAt m z xs) = insert z (set xs)"
proof -
  have "set (take m xs) \<union> set (drop m xs) = set xs" by (metis append_take_drop_id set_append)
  then show ?thesis by (auto simp: insAt_def)
qed

lemma map_insAt: "map f (insAt m z xs) = insAt m (f z) (map f xs)"
  by (simp add: insAt_def take_map drop_map)

lemma lft_le: "known xs orig \<Longrightarrow> lft xs orig \<le> length xs"
proof (cases orig)
  case None
  then show ?thesis by (simp add: lft_def)
next
  case (Some i)
  assume "known xs orig"
  with Some have "i \<in> ident ` set xs" by (simp add: known_def)
  then have "idx i xs < length xs" by (simp add: idx_lt)
  with Some show ?thesis by (simp add: lft_def)
qed

lemma place_le: "known xs (originLeft N) \<Longrightarrow> place xs N \<le> length xs"
  using lft_le[of xs "originLeft N"] slot_le[of "map (letter xs N) (drop (lft xs (originLeft N)) xs)"]
  by (simp add: place_def)

lemma place_ge: "lft xs (originLeft N) \<le> place xs N"
  by (simp add: place_def)

lemma integrateYjsMod_place:
  assumes d: "distinct (map ident (contentD doc))" and ok: "originsKnown (contentD doc)"
    and kl: "known (contentD doc) (originLeft N)" and kr: "known (contentD doc) (originRight N)"
    and sq: "snd (ident N) = lastSeenOf doc (fst (ident N)) + 1"
  shows "integrateYjsMod doc N (-1)
    = Inr ((setVersion doc (ident N))
            \<lparr>contentD := insAt (place (contentD doc) N) N (contentD doc),
             lengthD := (if \<not> isDeleted N then lengthD doc + 1 else lengthD doc)\<rparr>)"
proof -
  define doc1 where "doc1 = setVersion doc (ident N)"
  have c1: "contentD doc1 = contentD doc" by (simp add: doc1_def)
  have l1: "lengthD doc1 = lengthD doc" by (simp add: doc1_def)
  have fl: "findItem doc1 (originLeft N) (-2) = Inr (int (lft (contentD doc1) (originLeft N)) - 1)"
    by (rule findItem_lft) (use kl c1 in auto)
  have fr: "findRight doc1 (originRight N) (-1) = Inr (int (rgt (contentD doc1) (originRight N)))"
    by (rule findRight_rgt) (use kr c1 in auto)
  have ll: "lft (contentD doc1) (originLeft N) \<le> length (contentD doc1)"
    using lft_le[OF kl] c1 by simp
  have sc: "scanYjsMod doc1 N (-1) (int (lft (contentD doc1) (originLeft N)) - 1)
        (int (rgt (contentD doc1) (originRight N)))
        (int (lft (contentD doc1) (originLeft N))) (int (lft (contentD doc1) (originLeft N))) False
      = Inr (int (place (contentD doc1) N))"
    using scanYjsMod_slot[of doc1 "lft (contentD doc1) (originLeft N)" N _ False] d ok ll c1
    by (simp add: place_def)
  have pl: "place (contentD doc1) N \<le> length (contentD doc1)"
    using place_le kl c1 by metis
  have cm: "commitItem doc1 (int (place (contentD doc1) N)) N
      = doc1\<lparr>contentD := insAt (place (contentD doc) N) N (contentD doc),
             lengthD := (if \<not> isDeleted N then lengthD doc + 1 else lengthD doc)\<rparr>"
    using pl by (simp add: commitItem_def splice_in_range insAt_def c1 l1)
  show ?thesis
    unfolding integrateYjsMod_def Let_def doc1_def[symmetric]
    using sq by (simp add: fl fr sc cm)
qed

lemma idx_insAt:
  "ident z \<noteq> i \<Longrightarrow> m \<le> length xs
   \<Longrightarrow> idx i (insAt m z xs) = idx i xs + (if m \<le> idx i xs then 1 else 0)"
proof (induction xs arbitrary: m)
  case Nil
  then show ?case by simp
next
  case (Cons c cs)
  then show ?case by (cases m) auto
qed

lemma lft_insAt:
  "orig \<noteq> Some (ident z) \<Longrightarrow> m \<le> length xs
   \<Longrightarrow> lft (insAt m z xs) orig = lft xs orig + (if m < lft xs orig then 1 else 0)"
  by (cases orig) (auto simp: lft_def idx_insAt)

lemma rgt_insAt:
  "orig \<noteq> Some (ident z) \<Longrightarrow> m \<le> length xs
   \<Longrightarrow> rgt (insAt m z xs) orig = rgt xs orig + (if m \<le> rgt xs orig then 1 else 0)"
  by (cases orig) (auto simp: rgt_def idx_insAt)

lemma letter_insAt:
  assumes "m \<le> length xs"
    "originLeft c \<noteq> Some (ident z)" "originRight c \<noteq> Some (ident z)"
    "originLeft N \<noteq> Some (ident z)" "originRight N \<noteq> Some (ident z)"
  shows "letter (insAt m z xs) N c = letter xs N c"
  using assms by (simp add: letter_def lft_insAt rgt_insAt)

lemma drop_insAt_before: "m < l \<Longrightarrow> drop (Suc l) (insAt m z xs) = drop l xs"
proof (induction xs arbitrary: m l)
  case Nil
  then show ?case by simp
next
  case (Cons c cs)
  then show ?case by (cases m; cases l) auto
qed

lemma drop_insAt_after: "l \<le> m \<Longrightarrow> m \<le> length xs \<Longrightarrow> drop l (insAt m z xs) = insAt (m - l) z (drop l xs)"
proof (induction xs arbitrary: m l)
  case Nil
  then show ?case by simp
next
  case (Cons c cs)
  then show ?case by (cases m; cases l) auto
qed

lemma known_neq: "known xs orig \<Longrightarrow> ident z \<notin> ident ` set xs \<Longrightarrow> orig \<noteq> Some (ident z)"
  by (auto simp: known_def)

lemma place_insAt:
  assumes ok: "originsKnown xs" and z: "ident z \<notin> ident ` set xs"
    and m: "m \<le> length xs"
    and kz: "known xs (originLeft z)" "known xs (originRight z)"
    and kN: "known xs (originLeft N)" "known xs (originRight N)"
  shows "place (insAt m z xs) N =
    (if m < lft xs (originLeft N) then Suc (place xs N)
     else lft xs (originLeft N)
        + slot (insAt (m - lft xs (originLeft N)) (letter xs N z)
                  (map (letter xs N) (drop (lft xs (originLeft N)) xs))))"
proof -
  note nz = known_neq[OF kz(1) z] known_neq[OF kz(2) z]
  note nN = known_neq[OF kN(1) z] known_neq[OF kN(2) z]
  have old: "\<And>c. c \<in> set xs \<Longrightarrow> letter (insAt m z xs) N c = letter xs N c"
    using ok z m nN by (intro letter_insAt) (auto simp: originsKnown_def dest: known_neq)
  have new: "letter (insAt m z xs) N z = letter xs N z"
    using m nz nN by (intro letter_insAt)
  have mp: "\<And>ys. set ys \<subseteq> insert z (set xs) \<Longrightarrow> map (letter (insAt m z xs) N) ys = map (letter xs N) ys"
    using old new by (auto simp: subset_iff)
  show ?thesis
  proof (cases "m < lft xs (originLeft N)")
    case True
    have "set (drop (lft xs (originLeft N)) xs) \<subseteq> insert z (set xs)"
      using set_drop_subset[of "lft xs (originLeft N)" xs] by auto
    with True show ?thesis
      by (simp add: place_def lft_insAt[OF nN(1) m] drop_insAt_before mp)
  next
    case False
    then have le: "lft xs (originLeft N) \<le> m" by simp
    have "set (insAt (m - lft xs (originLeft N)) z (drop (lft xs (originLeft N)) xs)) \<subseteq> insert z (set xs)"
      using set_drop_subset[of "lft xs (originLeft N)" xs] by auto
    with False show ?thesis
      by (simp add: place_def lft_insAt[OF nN(1) m] drop_insAt_after[OF le m] mp map_insAt new)
  qed
qed

text \<open>Two items of different agents, both anchored in the document, integrate in either order to the same content.\<close>

lemma rgt_lt: "known xs (Some i) \<Longrightarrow> rgt xs (Some i) < length xs"
  by (simp add: known_def rgt_def idx_lt)

lemma rgt_inj:
  assumes ka: "known xs a" and kb: "known xs b" and eq: "rgt xs a = rgt xs b"
  shows "a = b"
proof (cases a)
  case None
  show ?thesis
  proof (cases b)
    case N: None
    with None show ?thesis by simp
  next
    case (Some j)
    from rgt_lt[of xs j] kb Some have "rgt xs b < length xs" by simp
    moreover have "rgt xs a = length xs" using None by (simp add: rgt_def)
    ultimately show ?thesis using eq by simp
  qed
next
  case (Some i)
  from rgt_lt[of xs i] ka Some have lt: "rgt xs a < length xs" by simp
  show ?thesis
  proof (cases b)
    case None
    then have "rgt xs b = length xs" by (simp add: rgt_def)
    with lt eq show ?thesis by simp
  next
    case S: (Some j)
    have i: "i \<in> ident ` set xs" using ka Some by (simp add: known_def)
    have j: "j \<in> ident ` set xs" using kb S by (simp add: known_def)
    have e: "idx i xs = idx j xs" using eq Some S by (simp add: rgt_def)
    have "i = ident (xs ! idx i xs)" using nth_idx[OF i] by simp
    also have "\<dots> = ident (xs ! idx j xs)" by (simp only: e)
    also have "\<dots> = j" using nth_idx[OF j] by simp
    finally show ?thesis using Some S by simp
  qed
qed

lemma nth_word:
  "i < length (drop l xs) \<Longrightarrow> map f (drop l xs) ! i = f (xs ! (l + i)) \<and> xs ! (l + i) \<in> set xs"
  by simp

lemma diamond_LT:
  assumes ok: "originsKnown xs"
    and fx: "ident x \<notin> ident ` set xs" and fy: "ident y \<notin> ident ` set xs"
    and kx: "known xs (originLeft x)" "known xs (originRight x)"
    and ky: "known xs (originLeft y)" "known xs (originRight y)"
    and ax: "anchoredAt xs x" and ay: "anchoredAt xs y"
    and l: "lft xs (originLeft x) = lft xs (originLeft y)"
    and r: "rgt xs (originRight x) < rgt xs (originRight y)"
  shows "insItem (insItem xs x) y = insItem (insItem xs y) x"
proof -
  define l0 where "l0 = lft xs (originLeft x)"
  define wx where "wx = map (letter xs x) (drop l0 xs)"
  define wy where "wy = map (letter xs y) (drop l0 xs)"
  have ly: "lft xs (originLeft y) = l0" using l by (simp add: l0_def)
  have px: "place xs x = l0 + slot wx" by (simp add: place_def l0_def wx_def)
  have py: "place xs y = l0 + slot wy" by (simp add: place_def ly wy_def)
  have len: "length wx = length wy" by (simp add: wx_def wy_def)
  have l0le: "l0 \<le> length xs" using lft_le[OF kx(1)] by (simp add: l0_def)
  have lenw: "length wx = length xs - l0" by (simp add: wx_def)
  have sx: "l0 + slot wx \<le> length xs" using slot_le[of wx] lenw l0le by simp
  have sy: "l0 + slot wy \<le> length xs" using slot_le[of wy] lenw len l0le by simp
  have nRy: "originRight y \<noteq> Some (ident x)" by (rule known_neq[OF ky(2) fx])
  have nRx: "originRight x \<noteq> Some (ident y)" by (rule known_neq[OF kx(2) fy])
  have lyx: "letter xs y x = Tent" using nRy l r by (auto simp: letter_def)
  have lxy: "letter xs x y = Adv" using nRx l r by (auto simp: letter_def)
  have c1: "\<And>c. c \<in> set xs \<Longrightarrow> letter xs x c = Tent \<Longrightarrow> letter xs y c = Tent \<or> letter xs y c = Stop"
    using l r by (auto simp: letter_def split: if_splits)
  have c2: "\<And>c. c \<in> set xs \<Longrightarrow> letter xs y c = Adv \<Longrightarrow> letter xs x c = Adv \<or> letter xs x c = Stop"
    using l r by (auto simp: letter_def split: if_splits)
  have c3: "\<And>c. c \<in> set xs \<Longrightarrow> letter xs x c = Stop \<Longrightarrow> letter xs y c \<noteq> Skip"
    using l r ax by (auto simp: letter_def anchoredAt_def split: if_splits)
  have r1: "\<And>i. i < length wx \<Longrightarrow> wx ! i = Tent \<Longrightarrow> wy ! i = Tent \<or> wy ! i = Stop"
    using c1 by (simp add: wx_def wy_def)
  have r2: "\<And>i. i < length wx \<Longrightarrow> wy ! i = Adv \<Longrightarrow> wx ! i = Adv \<or> wx ! i = Stop"
    using c2 by (simp add: wx_def wy_def)
  have r3: "\<And>i. i < length wx \<Longrightarrow> wx ! i = Stop \<Longrightarrow> wy ! i \<noteq> Skip"
    using c3 by (simp add: wx_def wy_def)
  have s2: "slot (insAt (slot wx) Tent wy) = slot wy + (if slot wx < slot wy then 1 else 0)"
    using len r1 r2 r3 by (rule sib_LT(2))
  have s1: "slot (insAt (slot wy) Adv wx) = slot wx + (if slot wy \<le> slot wx then 1 else 0)"
    using len r1 r2 r3 by (rule sib_LT(1))
  have p1: "place (insAt (l0 + slot wx) x xs) y = l0 + slot wy + (if slot wx < slot wy then 1 else 0)"
    by (simp add: place_insAt[OF ok fx sx kx ky] ly lyx wy_def[symmetric] s2)
  have p2: "place (insAt (l0 + slot wy) y xs) x = l0 + slot wx + (if slot wy \<le> slot wx then 1 else 0)"
    by (simp add: place_insAt[OF ok fy sy ky kx] l0_def[symmetric] lxy wx_def[symmetric] s1)
  show ?thesis
  proof (cases "slot wx < slot wy")
    case True
    then have "l0 + slot wx \<le> l0 + slot wy" by simp
    from insAt_commute[OF this sy, of y x] True show ?thesis
      by (simp add: insItem_def px py p1 p2)
  next
    case False
    then have "l0 + slot wy \<le> l0 + slot wx" by simp
    from insAt_commute[OF this sx, of x y] False show ?thesis
      by (simp add: insItem_def px py p1 p2)
  qed
qed

lemma diamond_EQ:
  assumes ok: "originsKnown xs"
    and fx: "ident x \<notin> ident ` set xs" and fy: "ident y \<notin> ident ` set xs"
    and kx: "known xs (originLeft x)" "known xs (originRight x)"
    and ky: "known xs (originLeft y)" "known xs (originRight y)"
    and l: "lft xs (originLeft x) = lft xs (originLeft y)"
    and r: "rgt xs (originRight x) = rgt xs (originRight y)"
    and ag: "fst (ident x) < fst (ident y)"
  shows "insItem (insItem xs x) y = insItem (insItem xs y) x"
proof -
  define l0 where "l0 = lft xs (originLeft x)"
  define wx where "wx = map (letter xs x) (drop l0 xs)"
  define wy where "wy = map (letter xs y) (drop l0 xs)"
  have ly: "lft xs (originLeft y) = l0" using l by (simp add: l0_def)
  have px: "place xs x = l0 + slot wx" by (simp add: place_def l0_def wx_def)
  have py: "place xs y = l0 + slot wy" by (simp add: place_def ly wy_def)
  have len: "length wx = length wy" by (simp add: wx_def wy_def)
  have l0le: "l0 \<le> length xs" using lft_le[OF kx(1)] by (simp add: l0_def)
  have lenw: "length wx = length xs - l0" by (simp add: wx_def)
  have sx: "l0 + slot wx \<le> length xs" using slot_le[of wx] lenw l0le by simp
  have sy: "l0 + slot wy \<le> length xs" using slot_le[of wy] lenw len l0le by simp
  have nRy: "originRight y \<noteq> Some (ident x)" by (rule known_neq[OF ky(2) fx])
  have nRx: "originRight x \<noteq> Some (ident y)" by (rule known_neq[OF kx(2) fy])
  have R: "originRight x = originRight y" by (rule rgt_inj[OF kx(2) ky(2) r])
  have lyx: "letter xs y x = Adv" using nRy l r ag by (auto simp: letter_def)
  have lxy: "letter xs x y = Stop" using nRx l r ag by (auto simp: letter_def)
  have c1: "\<And>c. c \<in> set xs \<Longrightarrow> letter xs x c = letter xs y c \<or> (letter xs x c = Stop \<and> letter xs y c = Adv)"
    using l R ag by (auto simp: letter_def split: if_splits)
  have rel: "\<And>i. i < length wx \<Longrightarrow> wx ! i = wy ! i \<or> (wx ! i = Stop \<and> wy ! i = Adv)"
    using c1 by (simp add: wx_def wy_def)
  have le: "slot wx \<le> slot wy" using len rel by (rule sib_EQ_le)
  have s1: "slot (insAt (slot wy) Stop wx) = slot wx" using len rel by (rule sib_EQ(1))
  have s2: "slot (insAt (slot wx) Adv wy) = Suc (slot wy)" using len rel by (rule sib_EQ(2))
  have p1: "place (insAt (l0 + slot wx) x xs) y = Suc (l0 + slot wy)"
    by (simp add: place_insAt[OF ok fx sx kx ky] ly lyx wy_def[symmetric] s2)
  have p2: "place (insAt (l0 + slot wy) y xs) x = l0 + slot wx"
    by (simp add: place_insAt[OF ok fy sy ky kx] l0_def[symmetric] lxy wx_def[symmetric] s1)
  have "l0 + slot wx \<le> l0 + slot wy" using le by simp
  from insAt_commute[OF this sy, of y x] show ?thesis
    by (simp add: insItem_def px py p1 p2)
qed

lemma diamond_nested:
  assumes ok: "originsKnown xs"
    and fx: "ident x \<notin> ident ` set xs" and fy: "ident y \<notin> ident ` set xs"
    and kx: "known xs (originLeft x)" "known xs (originRight x)"
    and ky: "known xs (originLeft y)" "known xs (originRight y)"
    and ax: "anchoredAt xs x"
    and l: "lft xs (originLeft x) < lft xs (originLeft y)"
  shows "insItem (insItem xs x) y = insItem (insItem xs y) x"
proof -
  define lx where "lx = lft xs (originLeft x)"
  define ly where "ly = lft xs (originLeft y)"
  define wx where "wx = map (letter xs x) (drop lx xs)"
  define wy where "wy = map (letter xs y) (drop ly xs)"
  have px: "place xs x = lx + slot wx" by (simp add: place_def lx_def wx_def)
  have py: "place xs y = ly + slot wy" by (simp add: place_def ly_def wy_def)
  have lxle: "lx \<le> length xs" using lft_le[OF kx(1)] by (simp add: lx_def)
  have lyle: "ly \<le> length xs" using lft_le[OF ky(1)] by (simp add: ly_def)
  have lt: "lx < ly" using l by (simp add: lx_def ly_def)
  have lenx: "length wx = length xs - lx" by (simp add: wx_def)
  have leny: "length wy = length xs - ly" by (simp add: wy_def)
  have sx: "lx + slot wx \<le> length xs" using slot_le[of wx] lenx lxle by simp
  have sy: "ly + slot wy \<le> length xs" using slot_le[of wy] leny lyle by simp
  have nRy: "originRight y \<noteq> Some (ident x)" by (rule known_neq[OF ky(2) fx])
  have nRx: "originRight x \<noteq> Some (ident y)" by (rule known_neq[OF kx(2) fy])
  have lyx: "letter xs y x = Stop" using nRy l by (auto simp: letter_def)
  have lxy: "letter xs x y = Skip" using nRx l by (auto simp: letter_def)
  have c1: "\<And>c. c \<in> set xs \<Longrightarrow> letter xs y c \<noteq> Stop \<Longrightarrow> letter xs x c = Skip"
    using l ax by (auto simp: letter_def anchoredAt_def split: if_splits)
  have coupling: "lx + slot wx < ly \<or> ly + slot wy \<le> lx + slot wx"
  proof (rule ccontr)
    assume "\<not> ?thesis"
    then have b: "ly \<le> lx + slot wx" "lx + slot wx < ly + slot wy" by auto
    define k where "k = lx + slot wx"
    have kl: "k < length xs" using b sy by (simp add: k_def)
    have "slot wx < length wx" using kl lenx by (simp add: k_def)
    from slot_at[OF this] have "letter xs x (xs ! k) = Tent \<or> letter xs x (xs ! k) = Stop"
      using kl lxle by (simp add: wx_def k_def)
    moreover have "k - ly < slot wy" using b by (simp add: k_def)
    from slot_no_Stop[OF this] have "letter xs y (xs ! k) \<noteq> Stop"
      using kl b lyle by (simp add: wy_def k_def)
    with c1[of "xs ! k"] kl have "letter xs x (xs ! k) = Skip" by simp
    ultimately show False by simp
  qed
  have p2: "place (insAt (ly + slot wy) y xs) x
      = lx + slot wx + (if ly + slot wy \<le> lx + slot wx then 1 else 0)"
  proof -
    have "ly + slot wy - lx \<le> length wx" using sy lenx by simp
    from ins_Skip(1)[OF this] place_insAt[OF ok fy sy ky kx] lt show ?thesis
      by (auto simp: lx_def[symmetric] lxy wx_def[symmetric])
  qed
  show ?thesis
  proof (cases "lx + slot wx < ly")
    case True
    then have p1: "place (insAt (lx + slot wx) x xs) y = Suc (ly + slot wy)"
      using place_insAt[OF ok fx sx kx ky] by (simp add: ly_def[symmetric] py)
    have "lx + slot wx \<le> ly + slot wy" using True by simp
    from insAt_commute[OF this sy, of y x] True show ?thesis
      by (simp add: insItem_def px py p1 p2)
  next
    case False
    with coupling have le: "ly + slot wy \<le> lx + slot wx" by simp
    have "lx + slot wx - ly \<le> length wy" using sx leny by simp
    moreover have "slot wy \<le> lx + slot wx - ly" using le by simp
    ultimately have "slot (insAt (lx + slot wx - ly) Stop wy) = slot wy" by (rule ins_Stop(1))
    then have p1: "place (insAt (lx + slot wx) x xs) y = ly + slot wy"
      using place_insAt[OF ok fx sx kx ky] False
      by (simp add: ly_def[symmetric] lyx wy_def[symmetric])
    from insAt_commute[OF le sx, of x y] le show ?thesis
      by (simp add: insItem_def px py p1 p2)
  qed
qed

lemma diamond:
  assumes ok: "originsKnown xs"
    and fx: "ident x \<notin> ident ` set xs" and fy: "ident y \<notin> ident ` set xs"
    and kx: "known xs (originLeft x)" "known xs (originRight x)"
    and ky: "known xs (originLeft y)" "known xs (originRight y)"
    and ax: "anchoredAt xs x" and ay: "anchoredAt xs y"
    and ag: "fst (ident x) \<noteq> fst (ident y)"
  shows "insItem (insItem xs x) y = insItem (insItem xs y) x"
proof -
  consider "lft xs (originLeft x) < lft xs (originLeft y)"
    | "lft xs (originLeft y) < lft xs (originLeft x)"
    | "lft xs (originLeft x) = lft xs (originLeft y)" "rgt xs (originRight x) < rgt xs (originRight y)"
    | "lft xs (originLeft x) = lft xs (originLeft y)" "rgt xs (originRight y) < rgt xs (originRight x)"
    | "lft xs (originLeft x) = lft xs (originLeft y)" "rgt xs (originRight x) = rgt xs (originRight y)"
      "fst (ident x) < fst (ident y)"
    | "lft xs (originLeft x) = lft xs (originLeft y)" "rgt xs (originRight x) = rgt xs (originRight y)"
      "fst (ident y) < fst (ident x)"
    using ag by (cases "lft xs (originLeft x)" "lft xs (originLeft y)" rule: linorder_cases;
       cases "rgt xs (originRight x)" "rgt xs (originRight y)" rule: linorder_cases;
       cases "fst (ident x)" "fst (ident y)" rule: linorder_cases) auto
  then show ?thesis
  proof cases
    case 1
    then show ?thesis by (rule diamond_nested[OF ok fx fy kx ky ax])
  next
    case 2
    then show ?thesis using diamond_nested[OF ok fy fx ky kx ay] by simp
  next
    case 3
    then show ?thesis by (rule diamond_LT[OF ok fx fy kx ky ax ay])
  next
    case 4
    then show ?thesis using diamond_LT[OF ok fy fx ky kx ay ax] by simp
  next
    case 5
    then show ?thesis by (rule diamond_EQ[OF ok fx fy kx ky])
  next
    case 6
    then show ?thesis using diamond_EQ[OF ok fy fx ky kx] by simp
  qed
qed

text \<open>The invariant of the documents built from a well-anchored set, and one integration step.\<close>

lemma idx_insAt_self:
  "ident z \<notin> ident ` set xs \<Longrightarrow> m \<le> length xs \<Longrightarrow> idx (ident z) (insAt m z xs) = m"
proof (induction xs arbitrary: m)
  case Nil
  then show ?case by simp
next
  case (Cons c cs)
  then show ?case by (cases m) auto
qed

lemma known_insAt: "known xs orig \<Longrightarrow> known (insAt m z xs) orig"
  by (auto simp: known_def split: option.splits)

lemma same_ident:
  "distinct (map ident S) \<Longrightarrow> x \<in> set S \<Longrightarrow> y \<in> set S \<Longrightarrow> ident x = ident y \<Longrightarrow> x = y"
  by (metis distinct_map inj_onD)

lemma find_ident:
  assumes "distinct (map ident S)" "c \<in> set S"
  shows "find (\<lambda>y. ident y = ident c) S = Some c"
proof -
  obtain y where y: "find (\<lambda>y. ident y = ident c) S = Some y"
    using assms(2) by (cases "find (\<lambda>y. ident y = ident c) S") (auto simp: find_None_iff)
  then have "y \<in> set S" "ident y = ident c"
    by (auto simp: find_Some_iff) 
  with same_ident[OF assms(1) _ assms(2)] y show ?thesis by simp
qed

lemma find_in:
  "find (\<lambda>y. ident y = r) S = Some y \<Longrightarrow> y \<in> set S \<and> ident y = r"
  by (auto simp: find_Some_iff)

lemma wellAnchored_right:
  assumes "wellAnchored S" "x \<in> set S" "originRight x = Some r"
  shows "\<exists>y. find (\<lambda>y. ident y = r) S = Some y
    \<and> originLeft y \<in> set (leftChain S (length S) (originLeft x))"
proof -
  from assms have c: "(case find (\<lambda>y. ident y = r) S of
                  None \<Rightarrow> False
                | Some y \<Rightarrow> originLeft y \<in> set (leftChain S (length S) (originLeft x)))"
    unfolding wellAnchored_def by (metis (mono_tags, lifting) option.simps(5))
  then show ?thesis by (cases "find (\<lambda>y. ident y = r) S") auto
qed

lemma distinct_insAt: "distinct ys \<Longrightarrow> y \<notin> set ys \<Longrightarrow> distinct (insAt m y ys)"
proof (induction ys arbitrary: m)
  case Nil
  then show ?case by simp
next
  case (Cons c cs)
  then show ?case by (cases m) auto
qed

lemma leftChain_before:
  assumes inv: "docInv S D" and dS: "distinct (map ident S)"
  shows "a \<in> set (leftChain S n p) \<Longrightarrow> known (contentD D) p
    \<Longrightarrow> known (contentD D) a \<and> lft (contentD D) a \<le> lft (contentD D) p"
proof (induction n arbitrary: p)
  case 0
  then show ?case by simp
next
  case (Suc n)
  show ?case
  proof (cases "a = p")
    case True
    with Suc.prems show ?thesis by simp
  next
    case False
    with Suc.prems(1) have mem: "a \<in> set (case p of None \<Rightarrow> []
          | Some i \<Rightarrow> (case find (\<lambda>y. ident y = i) S of None \<Rightarrow> []
                       | Some y \<Rightarrow> leftChain S n (originLeft y)))" by simp
    then obtain i where p: "p = Some i" by (cases p) auto
    with mem obtain y where f: "find (\<lambda>y. ident y = i) S = Some y"
      by (cases "find (\<lambda>y. ident y = i) S") auto
    with mem p have a: "a \<in> set (leftChain S n (originLeft y))" by simp
    from Suc.prems(2) p obtain c where c: "c \<in> set (contentD D)" "ident c = i"
      by (auto simp: known_def)
    with inv have cS: "c \<in> set S" by (auto simp: docInv_def)
    from find_ident[OF dS cS] f c have yc: "y = c" by simp
    from inv c have k: "known (contentD D) (originLeft c)"
      and b: "lft (contentD D) (originLeft c) \<le> idx (ident c) (contentD D)"
      by (auto simp: docInv_def originsKnown_def)
    from Suc.IH[OF a[unfolded yc] k] have
      "known (contentD D) a" "lft (contentD D) a \<le> lft (contentD D) (originLeft c)" by auto
    with b p c show ?thesis by (simp add: lft_def)
  qed
qed

lemma inVersion_known:
  assumes inv: "docInv S D" and x: "y \<in> set S" and nn: "0 \<le> snd (ident y)"
    and v: "isInVersion (Some (ident y)) (version D)"
  shows "ident y \<in> ident ` set (contentD D)"
proof -
  obtain a s where id: "ident y = (a, s)" by (cases "ident y")
  with v nn have "0 \<le> s \<and> s \<le> lastSeenOf D a"
    by (auto simp: isInVersion_def lastSeenOf_def split: option.splits)
  with inv id show ?thesis by (simp add: docInv_def)
qed

lemma ready_known:
  assumes inv: "docInv S D" and ok: "itemsOk S" and x: "x \<in> set S" and rd: "canInsertNow x D"
  shows "known (contentD D) (originLeft x)" "known (contentD D) (originRight x)"
    "anchoredAt (contentD D) x" "ident x \<notin> ident ` set (contentD D)"
    "snd (ident x) = lastSeenOf D (fst (ident x)) + 1"
proof -
  from ok have dS: "distinct (map ident S)" and nn: "\<And>y. y \<in> set S \<Longrightarrow> 0 \<le> snd (ident y)"
    and wa: "wellAnchored S" by (auto simp: itemsOk_def)
  from wa x have kl: "known S (originLeft x)" by (auto simp: wellAnchored_def)
  show kL: "known (contentD D) (originLeft x)"
  proof (cases "originLeft x")
    case None
    then show ?thesis by (simp add: known_def)
  next
    case (Some i)
    with kl obtain y where y: "y \<in> set S" "ident y = i" by (auto simp: known_def)
    from rd Some y have "isInVersion (Some (ident y)) (version D)" by (simp add: canInsertNow_def)
    from inVersion_known[OF inv y(1) nn[OF y(1)] this] Some y show ?thesis by (simp add: known_def)
  qed
  show kR: "known (contentD D) (originRight x)"
  proof (cases "originRight x")
    case None
    then show ?thesis by (simp add: known_def)
  next
    case (Some r)
    from wellAnchored_right[OF wa x Some] obtain y where "find (\<lambda>y. ident y = r) S = Some y"
      by auto
    from find_in[OF this] have y: "y \<in> set S" "ident y = r" by auto
    from rd Some y have "isInVersion (Some (ident y)) (version D)" by (simp add: canInsertNow_def)
    from inVersion_known[OF inv y(1) nn[OF y(1)] this] Some y show ?thesis by (simp add: known_def)
  qed
  show "anchoredAt (contentD D) x"
    unfolding anchoredAt_def
  proof (intro ballI impI)
    fix c assume c: "c \<in> set (contentD D)" "Some (ident c) = originRight x"
    from c inv have cS: "c \<in> set S" by (auto simp: docInv_def)
    from wellAnchored_right[OF wa x c(2)[symmetric]] find_ident[OF dS cS]
    have "originLeft c \<in> set (leftChain S (length S) (originLeft x))"
      by auto
    from leftChain_before[OF inv dS this kL]
    show "lft (contentD D) (originLeft c) \<le> lft (contentD D) (originLeft x)" by simp
  qed
  obtain a s where id: "ident x = (a, s)" by (cases "ident x")
  from nn[OF x] id have s0: "0 \<le> s" by simp
  from inv have l1: "-1 \<le> lastSeenOf D a" by (simp add: docInv_def)
  from rd id have nv: "\<not> isInVersion (Some (a, s)) (version D)"
    and pv: "s = 0 \<or> isInVersion (Some (a, s - 1)) (version D)"
    by (auto simp: canInsertNow_def)
  from nv s0 have lt: "lastSeenOf D a < s"
    by (auto simp: isInVersion_def lastSeenOf_def split: option.splits)
  from pv l1 lt have eq: "s = lastSeenOf D a + 1"
    by (auto simp: isInVersion_def lastSeenOf_def split: option.splits)
  with id show "snd (ident x) = lastSeenOf D (fst (ident x)) + 1" by simp
  from inv have "((a, s) \<in> ident ` set (contentD D)) = (0 \<le> s \<and> s \<le> lastSeenOf D a)"
    by (simp add: docInv_def)
  with lt id show "ident x \<notin> ident ` set (contentD D)" by simp
qed

lemma lastSeenOf_stepDoc:
  "lastSeenOf (stepDoc D x) a = (if a = fst (ident x) then snd (ident x) else lastSeenOf D a)"
  by (simp add: lastSeenOf_def stepDoc_def setVersion_def)

lemma contentD_stepDoc: "contentD (stepDoc D x) = insItem (contentD D) x"
  by (simp add: stepDoc_def)

lemma version_stepDoc: "version (stepDoc D x) = (version D)(fst (ident x) \<mapsto> snd (ident x))"
  by (simp add: stepDoc_def setVersion_def)

lemma step_ok:
  assumes inv: "docInv S D" and ok: "itemsOk S" and x: "x \<in> set S" and rd: "canInsertNow x D"
  shows "integrate yjsMod D x (-1) = Inr (stepDoc D x)" and "docInv S (stepDoc D x)"
proof -
  note r = ready_known[OF inv ok x rd]
  let ?xs = "contentD D"
  from inv have d: "distinct (map ident ?xs)" and sub: "set ?xs \<subseteq> set S"
    and okn: "originsKnown ?xs"
    and pf: "\<And>c. c \<in> set ?xs \<Longrightarrow> lft ?xs (originLeft c) \<le> idx (ident c) ?xs"
    and ag: "\<And>a s. ((a, s) \<in> ident ` set ?xs) = (0 \<le> s \<and> s \<le> lastSeenOf D a)"
    and l1: "\<And>a. -1 \<le> lastSeenOf D a"
    by (auto simp: docInv_def)
  show "integrate yjsMod D x (-1) = Inr (stepDoc D x)"
    using integrateYjsMod_place[OF d okn r(1) r(2) r(5)]
    by (simp add: integrate_def stepDoc_def insItem_def)
  define m where "m = place ?xs x"
  have m: "m \<le> length ?xs" using place_le[OF r(1)] by (simp add: m_def)
  have cs: "contentD (stepDoc D x) = insAt m x ?xs" by (simp add: stepDoc_def insItem_def m_def)
  have nz: "\<And>c. c \<in> set ?xs \<Longrightarrow> ident x \<noteq> ident c" using r(4) by auto
  have d': "distinct (map ident (insAt m x ?xs))"
    using distinct_insAt[OF d, of "ident x" m] r(4) by (simp add: map_insAt)
  have okn': "originsKnown (insAt m x ?xs)"
    using okn r(1) r(2) by (auto simp: originsKnown_def intro: known_insAt)
  have pf': "\<forall>c \<in> set (insAt m x ?xs). lft (insAt m x ?xs) (originLeft c) \<le> idx (ident c) (insAt m x ?xs)"
  proof
    fix c assume "c \<in> set (insAt m x ?xs)"
    then consider "c = x" | "c \<in> set ?xs" by auto
    then show "lft (insAt m x ?xs) (originLeft c) \<le> idx (ident c) (insAt m x ?xs)"
    proof cases
      case 1
      have "lft ?xs (originLeft x) \<le> m" using place_ge[of ?xs x] by (simp add: m_def)
      then show ?thesis
        using 1 lft_insAt[OF known_neq[OF r(1) r(4)] m] idx_insAt_self[OF r(4) m] by simp
    next
      case 2
      from okn 2 have "known ?xs (originLeft c)" by (auto simp: originsKnown_def)
      from lft_insAt[OF known_neq[OF this r(4)] m] idx_insAt[OF nz[OF 2] m] pf[OF 2]
      show ?thesis by auto
    qed
  qed
  obtain a s where id: "ident x = (a, s)" by (cases "ident x")
  have ag': "\<forall>a' s'. ((a', s') \<in> ident ` set (insAt m x ?xs))
      = (0 \<le> s' \<and> s' \<le> lastSeenOf (stepDoc D x) a')"
    using ag r(5) id l1[of a] by (auto simp: lastSeenOf_stepDoc)
  have l1': "\<forall>a'. -1 \<le> lastSeenOf (stepDoc D x) a'"
  proof
    fix a'
    have "-1 \<le> lastSeenOf D (fst (ident x))" by (rule l1)
    then have "-1 \<le> snd (ident x)" using r(5) by simp
    with l1[of a'] show "-1 \<le> lastSeenOf (stepDoc D x) a'" by (simp add: lastSeenOf_stepDoc)
  qed
  show "docInv S (stepDoc D x)"
    unfolding docInv_def cs using d' okn' pf' ag' l1' sub x by simp
qed

text \<open>Causally ready runs: an item that is ready can be moved to the front.\<close>

lemma ready_other:
  assumes inv: "docInv S D" and ok: "itemsOk S" and x: "x \<in> set S" and y: "y \<in> set S"
    and ne: "x \<noteq> y" and rx: "canInsertNow x D" and ry: "canInsertNow y D"
  shows "fst (ident x) \<noteq> fst (ident y)" and "canInsertNow y (stepDoc D x)"
proof -
  note px = ready_known[OF inv ok x rx]
  note py = ready_known[OF inv ok y ry]
  from ok have dS: "distinct (map ident S)" by (simp add: itemsOk_def)
  show ag: "fst (ident x) \<noteq> fst (ident y)"
  proof
    assume e: "fst (ident x) = fst (ident y)"
    with px(5) py(5) have "snd (ident x) = snd (ident y)" by simp
    with e have "ident x = ident y" by (simp add: prod_eq_iff)
    from same_ident[OF dS x y this] ne show False by simp
  qed
  note st = step_ok(1)[OF inv ok x rx]
  have m: "\<And>i. isInVersion i (version D) \<Longrightarrow> isInVersion i (version (stepDoc D x))"
    by (rule integrate_mono[OF st])
  have n: "\<not> isInVersion (Some (ident y)) (version (stepDoc D x))"
    using ry ag by (cases "ident y") (auto simp: canInsertNow_def isInVersion_def version_stepDoc)
  from ry m n show "canInsertNow y (stepDoc D x)"
    by (auto simp: canInsertNow_def)
qed

lemma stepDoc_commute:
  assumes inv: "docInv S D" and ok: "itemsOk S" and x: "x \<in> set S" and y: "y \<in> set S"
    and ne: "x \<noteq> y" and rx: "canInsertNow x D" and ry: "canInsertNow y D"
  shows "stepDoc (stepDoc D x) y = stepDoc (stepDoc D y) x"
proof -
  note px = ready_known[OF inv ok x rx]
  note py = ready_known[OF inv ok y ry]
  note ag = ready_other(1)[OF inv ok x y ne rx ry]
  from inv have okn: "originsKnown (contentD D)" by (simp add: docInv_def)
  have dia: "insItem (insItem (contentD D) x) y = insItem (insItem (contentD D) y) x"
    by (rule diamond[OF okn px(4) py(4) px(1) px(2) py(1) py(2) px(3) py(3) ag])
  have v: "(version D)(fst (ident x) \<mapsto> snd (ident x), fst (ident y) \<mapsto> snd (ident y))
      = (version D)(fst (ident y) \<mapsto> snd (ident y), fst (ident x) \<mapsto> snd (ident x))"
    using ag by (simp add: fun_upd_twist)
  show ?thesis
    by (simp add: stepDoc_def setVersion_def dia v)
qed

lemma run_move_front:
  assumes ok: "itemsOk S"
  shows "docInv S D \<Longrightarrow> set pre \<subseteq> set S \<Longrightarrow> a \<in> set S \<Longrightarrow> a \<notin> set pre
    \<Longrightarrow> canInsertNow a D
    \<Longrightarrow> causalRun yjsMod D (pre @ a # post) = Some r
    \<Longrightarrow> causalRun yjsMod D (a # pre @ post) = Some r"
proof (induction pre arbitrary: D)
  case Nil
  then show ?case by simp
next
  case (Cons b pre)
  from Cons.prems have b: "b \<in> set S" and ne: "b \<noteq> a" and sub: "set pre \<subseteq> set S"
    and nin: "a \<notin> set pre" by auto
  from Cons.prems(6) have rb: "canInsertNow b D" by (auto split: if_splits)
  note sb = step_ok[OF Cons.prems(1) ok b rb]
  from Cons.prems(6) rb sb(1) have run: "causalRun yjsMod (stepDoc D b) (pre @ a # post) = Some r"
    by simp
  note ra = ready_other(2)[OF Cons.prems(1) ok b Cons.prems(3) ne rb Cons.prems(5)]
  from Cons.IH[OF sb(2) sub Cons.prems(3) nin ra run]
  have run2: "causalRun yjsMod (stepDoc D b) (a # pre @ post) = Some r" .
  note sba = step_ok[OF sb(2) ok Cons.prems(3) ra]
  from run2 ra sba(1) have run3: "causalRun yjsMod (stepDoc (stepDoc D b) a) (pre @ post) = Some r"
    by simp
  note sa = step_ok[OF Cons.prems(1) ok Cons.prems(3) Cons.prems(5)]
  note rb' = ready_other(2)[OF Cons.prems(1) ok Cons.prems(3) b ne[symmetric] Cons.prems(5) rb]
  note sab = step_ok[OF sa(2) ok b rb']
  have cm: "stepDoc (stepDoc D a) b = stepDoc (stepDoc D b) a"
    by (rule stepDoc_commute[OF Cons.prems(1) ok Cons.prems(3) b ne[symmetric] Cons.prems(5) rb])
  show ?case
    using Cons.prems(5) sa(1) rb' sab(1) run3 by (simp add: cm)
qed

lemma run_total:
  assumes ok: "itemsOk S"
  shows "docInv S D \<Longrightarrow> set ops \<subseteq> set S \<Longrightarrow> causalRun yjsMod D ops = Some r
    \<Longrightarrow> \<exists>d. r = Inr d \<and> docInv S d"
proof (induction ops arbitrary: D)
  case Nil
  then show ?case by auto
next
  case (Cons b ops)
  from Cons.prems have b: "b \<in> set S" and sub: "set ops \<subseteq> set S" by auto
  from Cons.prems(3) have rb: "canInsertNow b D" by (auto split: if_splits)
  note sb = step_ok[OF Cons.prems(1) ok b rb]
  from Cons.prems(3) rb sb(1) have "causalRun yjsMod (stepDoc D b) ops = Some r" by simp
  from Cons.IH[OF sb(2) sub this] show ?case .
qed

lemma run_fresh:
  assumes ok: "itemsOk S"
  shows "docInv S D \<Longrightarrow> set ops \<subseteq> set S \<Longrightarrow> causalRun yjsMod D ops = Some r
    \<Longrightarrow> x \<in> set ops \<Longrightarrow> \<not> isInVersion (Some (ident x)) (version D)"
proof (induction ops arbitrary: D)
  case Nil
  then show ?case by simp
next
  case (Cons b ops)
  from Cons.prems have b: "b \<in> set S" and sub: "set ops \<subseteq> set S" by auto
  from Cons.prems(3) have rb: "canInsertNow b D" by (auto split: if_splits)
  note sb = step_ok[OF Cons.prems(1) ok b rb]
  from Cons.prems(3) rb sb(1) have run: "causalRun yjsMod (stepDoc D b) ops = Some r" by simp
  show ?case
  proof (cases "x = b")
    case True
    with rb show ?thesis by (simp add: canInsertNow_def)
  next
    case False
    with Cons.prems(4) have "x \<in> set ops" by simp
    from Cons.IH[OF sb(2) sub run this] integrate_mono[OF sb(1)] show ?thesis by blast
  qed
qed

lemma confluence_from:
  assumes ok: "itemsOk S"
  shows "docInv S D \<Longrightarrow> set ops1 \<subseteq> set S \<Longrightarrow> set ops2 = set ops1
    \<Longrightarrow> causalRun yjsMod D ops1 = Some (Inr d1)
    \<Longrightarrow> causalRun yjsMod D ops2 = Some r2
    \<Longrightarrow> r2 = Inr d1"
proof (induction ops1 arbitrary: D ops2)
  case Nil
  then show ?case by simp
next
  case (Cons a t1)
  from Cons.prems have a: "a \<in> set S" and sub: "set t1 \<subseteq> set S" by auto
  from Cons.prems(4) have ra: "canInsertNow a D" by (auto split: if_splits)
  note sa = step_ok[OF Cons.prems(1) ok a ra]
  from Cons.prems(4) ra sa(1) have run1: "causalRun yjsMod (stepDoc D a) t1 = Some (Inr d1)" by simp
  from Cons.prems(3) have "a \<in> set ops2" by simp
  from split_list_first[OF this] obtain pre post where
    sp: "ops2 = pre @ a # post" "a \<notin> set pre" by blast
  from sp Cons.prems(2,3) have subp: "set pre \<subseteq> set S" "set (pre @ post) \<subseteq> set S" by auto
  from run_move_front[OF ok Cons.prems(1) subp(1) a sp(2) ra] Cons.prems(5) sp(1)
  have "causalRun yjsMod D (a # pre @ post) = Some r2" by simp
  with ra sa(1) have run2: "causalRun yjsMod (stepDoc D a) (pre @ post) = Some r2" by simp
  have inv: "isInVersion (Some (ident a)) (version (stepDoc D a))"
    by (rule integrate_inVersion[OF sa(1)])
  have n1: "a \<notin> set t1" using run_fresh[OF ok sa(2) sub run1] inv by blast
  have n2: "a \<notin> set (pre @ post)" using run_fresh[OF ok sa(2) subp(2) run2] inv by blast
  have "set (pre @ post) = set ops2 - {a}" using sp n2 by auto
  also have "\<dots> = set t1" using Cons.prems(3) n1 by auto
  finally have eq: "set (pre @ post) = set t1" .
  from Cons.IH[OF sa(2) sub eq run1 run2] show ?case .
qed

lemma run_items:
  "causalRun alg D ops = Some (Inr d) \<Longrightarrow> (\<And>a. -1 \<le> lastSeenOf D a)
   \<Longrightarrow> distinct (map ident ops)
     \<and> (\<forall>x \<in> set ops. 0 \<le> snd (ident x) \<and> \<not> isInVersion (Some (ident x)) (version D))"
proof (induction ops arbitrary: D)
  case Nil
  then show ?case by simp
next
  case (Cons b ops)
  from Cons.prems(1) have rb: "canInsertNow b D" by (auto split: if_splits)
  with Cons.prems(1) obtain D' where st: "integrate alg D b (-1) = Inr D'"
    and run: "causalRun alg D' ops = Some (Inr d)"
    by (cases "integrate alg D b (-1)") auto
  note v = integrate_version[OF st]
  have sb: "0 \<le> snd (ident b)" using v Cons.prems(2)[of "fst (ident b)"] by simp
  have l': "\<And>a. -1 \<le> lastSeenOf D' a"
    using v sb Cons.prems(2) by (simp add: lastSeenOf_def)
  from Cons.IH[OF run l'] have ih: "distinct (map ident ops)"
    "\<And>x. x \<in> set ops \<Longrightarrow> 0 \<le> snd (ident x) \<and> \<not> isInVersion (Some (ident x)) (version D')"
    by auto
  have inb: "isInVersion (Some (ident b)) (version D')" by (rule integrate_inVersion[OF st])
  have "ident b \<notin> ident ` set ops" using ih(2) inb by force
  moreover have "\<And>x. x \<in> set ops \<Longrightarrow> \<not> isInVersion (Some (ident x)) (version D)"
    using ih(2) integrate_mono[OF st] by blast
  moreover have "\<not> isInVersion (Some (ident b)) (version D)" using rb by (simp add: canInsertNow_def)
  ultimately show ?case using ih sb by auto
qed

lemma docInv_newDoc: "docInv S newDoc"
  by (simp add: docInv_def newDoc_def originsKnown_def lastSeenOf_def)

lemma confluence_newDoc:
  assumes wa: "wellAnchored ops1" and st: "set ops2 = set ops1"
    and r1: "causalRun yjsMod newDoc ops1 = Some (Inr d)"
    and r2: "causalRun yjsMod newDoc ops2 = Some r"
  shows "r = Inr d"
proof -
  have "\<And>a. -1 \<le> lastSeenOf (newDoc :: 'a Doc) a" by (simp add: lastSeenOf_def newDoc_def)
  from run_items[OF r1 this] wa have ok: "itemsOk ops1" by (simp add: itemsOk_def)
  show ?thesis
    by (rule confluence_from[OF ok docInv_newDoc _ st r1 r2]) simp
qed

text \<open>Documents with one version, and the order in which \<open>mergeInto\<close> integrates.\<close>

lemma run_content:
  assumes ok: "itemsOk S"
  shows "docInv S D \<Longrightarrow> set ops \<subseteq> set S \<Longrightarrow> causalRun yjsMod D ops = Some (Inr d)
    \<Longrightarrow> set (contentD d) = set (contentD D) \<union> set ops"
proof (induction ops arbitrary: D)
  case Nil
  then show ?case by simp
next
  case (Cons b ops)
  from Cons.prems have b: "b \<in> set S" and sub: "set ops \<subseteq> set S" by auto
  from Cons.prems(3) have rb: "canInsertNow b D" by (auto split: if_splits)
  note sb = step_ok[OF Cons.prems(1) ok b rb]
  from Cons.prems(3) rb sb(1) have "causalRun yjsMod (stepDoc D b) ops = Some (Inr d)" by simp
  from Cons.IH[OF sb(2) sub this] show ?case
    by (simp add: contentD_stepDoc insItem_def)
qed

lemma same_version_same_doc:
  assumes ok: "itemsOk S" and s1: "set ops1 \<subseteq> set S" and s2: "set ops2 \<subseteq> set S"
    and r1: "causalRun yjsMod newDoc ops1 = Some (Inr d1)"
    and r2: "causalRun yjsMod newDoc ops2 = Some (Inr d2)"
    and v: "version d2 = version d1"
  shows "d2 = d1"
proof -
  from ok have dS: "distinct (map ident S)" by (simp add: itemsOk_def)
  from run_total[OF ok docInv_newDoc s1 r1] have i1: "docInv S d1" by simp
  from run_total[OF ok docInv_newDoc s2 r2] have i2: "docInv S d2" by simp
  have ls: "\<And>a. lastSeenOf d2 a = lastSeenOf d1 a" using v by (simp add: lastSeenOf_def)
  have ids: "ident ` set (contentD d2) = ident ` set (contentD d1)"
  proof -
    have "\<And>a s. ((a, s) \<in> ident ` set (contentD d2)) = ((a, s) \<in> ident ` set (contentD d1))"
      using i1 i2 ls by (simp add: docInv_def)
    then have "\<And>i. (i \<in> ident ` set (contentD d2)) = (i \<in> ident ` set (contentD d1))"
      by (metis prod.collapse)
    then show ?thesis by blast
  qed
  have sub: "\<And>d d'. docInv S d \<Longrightarrow> docInv S d'
      \<Longrightarrow> ident ` set (contentD d) = ident ` set (contentD d')
      \<Longrightarrow> set (contentD d) \<subseteq> set (contentD d')"
  proof
    fix d d' :: "'a Doc" and x
    assume d: "docInv S d" "docInv S d'" "ident ` set (contentD d) = ident ` set (contentD d')"
      and x: "x \<in> set (contentD d)"
    then have "ident x \<in> ident ` set (contentD d')" by blast
    then obtain y where y: "y \<in> set (contentD d')" "ident y = ident x" by auto
    from d x y have "x \<in> set S" "y \<in> set S" by (auto simp: docInv_def)
    from same_ident[OF dS this] y show "x \<in> set (contentD d')" by simp
  qed
  from sub[OF i1 i2 ids[symmetric]] sub[OF i2 i1 ids]
  have "set (contentD d2) = set (contentD d1)" by auto
  with run_content[OF ok docInv_newDoc s1 r1] run_content[OF ok docInv_newDoc s2 r2]
  have "set ops2 = set ops1" by (simp add: newDoc_def)
  from confluence_from[OF ok docInv_newDoc s1 this r1 r2] show ?thesis by simp
qed

lemma pending_zero: "pending ms \<le> 0 \<Longrightarrow> {op. Some op \<in> set ms} = {}"
proof (induction ms)
  case Nil
  then show ?case by simp
next
  case (Cons m ms)
  then show ?case using pending_nonneg[of ms] by (cases m) auto
qed

text \<open>\<open>mergeInto\<close> completes whenever some causally ready order does.\<close>

lemma run_extract:
  assumes ok: "itemsOk S"
  shows "docInv S D \<Longrightarrow> set ops \<subseteq> set S \<Longrightarrow> causalRun yjsMod D ops = Some r
    \<Longrightarrow> causalRun yjsMod D pre = Some (Inr D') \<Longrightarrow> set pre \<subseteq> set ops
    \<Longrightarrow> \<exists>ops'. causalRun yjsMod D' ops' = Some r \<and> set ops' = set ops - set pre"
proof (induction pre arbitrary: D ops)
  case Nil
  then show ?case by auto
next
  case (Cons a pre)
  from Cons.prems have a: "a \<in> set S" "a \<in> set ops" and subp: "set pre \<subseteq> set S" by auto
  from Cons.prems(4) have ra: "canInsertNow a D" by (auto split: if_splits)
  note sa = step_ok[OF Cons.prems(1) ok a(1) ra]
  from Cons.prems(4) ra sa(1) have runp: "causalRun yjsMod (stepDoc D a) pre = Some (Inr D')" by simp
  from split_list_first[OF a(2)] obtain p1 p2 where sp: "ops = p1 @ a # p2" "a \<notin> set p1" by blast
  from sp Cons.prems(2) have sub1: "set p1 \<subseteq> set S" "set (p1 @ p2) \<subseteq> set S" by auto
  from run_move_front[OF ok Cons.prems(1) sub1(1) a(1) sp(2) ra] Cons.prems(3) sp(1)
  have "causalRun yjsMod D (a # p1 @ p2) = Some r" by simp
  with ra sa(1) have run2: "causalRun yjsMod (stepDoc D a) (p1 @ p2) = Some r" by simp
  have inv: "isInVersion (Some (ident a)) (version (stepDoc D a))"
    by (rule integrate_inVersion[OF sa(1)])
  have n1: "a \<notin> set pre" using run_fresh[OF ok sa(2) subp runp] inv by blast
  have n2: "a \<notin> set (p1 @ p2)" using run_fresh[OF ok sa(2) sub1(2) run2] inv by blast
  have sub2: "set pre \<subseteq> set (p1 @ p2)" using Cons.prems(5) sp(1) n1 by auto
  from Cons.IH[OF sa(2) sub1(2) run2 runp sub2] obtain ops' where
    o: "causalRun yjsMod D' ops' = Some r" "set ops' = set (p1 @ p2) - set pre" by auto
  have "set (p1 @ p2) - set pre = set ops - set (a # pre)" using sp n2 by auto
  with o show ?case by auto
qed

lemma mergePassV_total:
  assumes ok: "itemsOk S"
  shows "docInv S dest \<Longrightarrow> {op. Some op \<in> set ms} \<subseteq> set S
    \<Longrightarrow> \<exists>dest' ms' n. mergePassV yjsMod dest ms = Inr (dest', ms', n)"
proof (induction ms arbitrary: dest)
  case Nil
  then show ?case by simp
next
  case (Cons m ms)
  from Cons.prems(2) have sub: "{op. Some op \<in> set ms} \<subseteq> set S" by auto
  show ?case
  proof (cases m)
    case None
    from Cons.IH[OF Cons.prems(1) sub] None show ?thesis by auto
  next
    case (Some op)
    with Cons.prems(2) have op: "op \<in> set S" by auto
    show ?thesis
    proof (cases "canInsertNow op dest")
      case False
      from Cons.IH[OF Cons.prems(1) sub] Some False show ?thesis by auto
    next
      case True
      note s = step_ok[OF Cons.prems(1) ok op True]
      from Cons.IH[OF s(2) sub] Some True s(1) show ?thesis by auto
    qed
  qed
qed

lemma mergePassV_progress:
  "mergePassV alg dest ms = Inr (dest', ms', n) \<Longrightarrow> Some a \<in> set ms \<Longrightarrow> canInsertNow a dest
   \<Longrightarrow> 0 < n"
proof (induction ms arbitrary: ms' n)
  case Nil
  then show ?case by simp
next
  case (Cons m ms)
  show ?case
  proof (cases m)
    case None
    with Cons.prems obtain rest' where "mergePassV alg dest ms = Inr (dest', rest', n)"
      by (auto split: sum.splits)
    from Cons.IH[OF this] Cons.prems None show ?thesis by simp
  next
    case (Some op)
    show ?thesis
    proof (cases "canInsertNow op dest")
      case True
      with Cons.prems(1) Some show ?thesis by (auto split: sum.splits)
    next
      case False
      with Cons.prems Some obtain rest' where "mergePassV alg dest ms = Inr (dest', rest', n)"
        by (auto split: sum.splits)
      moreover from False Cons.prems Some have "Some a \<in> set ms" by auto
      ultimately show ?thesis using Cons.IH Cons.prems(3) by blast
    qed
  qed
qed

lemma mergePassV_apart:
  "mergePassV alg dest ms = Inr (dest', ms', n) \<Longrightarrow> distinct (filter (\<lambda>m. m \<noteq> None) ms)
   \<Longrightarrow> \<exists>ops. causalRun alg dest ops = Some (Inr dest')
         \<and> set ops \<union> {op. Some op \<in> set ms'} = {op. Some op \<in> set ms}
         \<and> set ops \<inter> {op. Some op \<in> set ms'} = {}
         \<and> distinct (filter (\<lambda>m. m \<noteq> None) ms')
         \<and> pending ms' = pending ms - int n"
proof (induction alg dest ms arbitrary: dest' ms' n rule: mergePassV.induct)
  case (1 alg dest)
  then have "causalRun alg dest [] = Some (Inr dest')" by simp
  with 1 show ?case by (intro exI[of _ "[]"]) (simp add: pending_def)
next
  case (2 alg dest rest)
  from "2.prems" obtain rest' where p: "mergePassV alg dest rest = Inr (dest', rest', n)"
    and m: "ms' = None # rest'" by (auto split: sum.splits)
  from "2.prems"(2) have "distinct (filter (\<lambda>m. m \<noteq> None) rest)" by simp
  from "2.IH"[OF p this] m show ?case by auto
next
  case (3 alg dest op rest)
  from "3.prems"(2) have dr: "distinct (filter (\<lambda>m. m \<noteq> None) rest)" and nin: "Some op \<notin> set rest"
    by auto
  show ?case
  proof (cases "canInsertNow op dest")
    case False
    with "3.prems" obtain rest' where p: "mergePassV alg dest rest = Inr (dest', rest', n)"
      and m: "ms' = Some op # rest'" by (auto split: sum.splits)
    from "3.IH"(1)[OF _ p dr] False obtain ops where
      o: "causalRun alg dest ops = Some (Inr dest')"
        "set ops \<union> {op. Some op \<in> set rest'} = {op. Some op \<in> set rest}"
        "set ops \<inter> {op. Some op \<in> set rest'} = {}"
        "distinct (filter (\<lambda>m. m \<noteq> None) rest')"
        "pending rest' = pending rest - int n" by auto
    from o(2) nin have n1: "op \<notin> set ops" "Some op \<notin> set rest'" by auto
    from o(2) have "set ops \<union> {x. Some x \<in> set ms'} = {x. Some x \<in> set (Some op # rest)}"
      using m by auto
    moreover from o(3) n1 have "set ops \<inter> {x. Some x \<in> set ms'} = {}" using m by auto
    moreover from o(4) n1 have "distinct (filter (\<lambda>m. m \<noteq> None) ms')" using m by simp
    ultimately show ?thesis using o(1,5) m by (intro exI[of _ ops]) simp
  next
    case True
    with "3.prems" obtain dest1 where i: "integrate alg dest op (-1) = Inr dest1"
      by (auto split: sum.splits)
    with True "3.prems" obtain rest' k where p: "mergePassV alg dest1 rest = Inr (dest', rest', k)"
      and m: "ms' = None # rest'" and n: "n = k + 1"
      by (auto split: sum.splits)
    from "3.IH"(2)[OF _ i p dr] True obtain ops where
      o: "causalRun alg dest1 ops = Some (Inr dest')"
        "set ops \<union> {op. Some op \<in> set rest'} = {op. Some op \<in> set rest}"
        "set ops \<inter> {op. Some op \<in> set rest'} = {}"
        "distinct (filter (\<lambda>m. m \<noteq> None) rest')"
        "pending rest' = pending rest - int k" by auto
    from o(2) nin have n1: "op \<notin> set ops" "Some op \<notin> set rest'" by auto
    have "causalRun alg dest (op # ops) = Some (Inr dest')" using True i o(1) by simp
    moreover from o(2) have "set (op # ops) \<union> {x. Some x \<in> set ms'} = {x. Some x \<in> set (Some op # rest)}"
      using m by auto
    moreover from o(3) n1 have "set (op # ops) \<inter> {x. Some x \<in> set ms'} = {}" using m by auto
    moreover from o(4) have "distinct (filter (\<lambda>m. m \<noteq> None) ms')" using m by simp
    moreover have "pending ms' = pending (Some op # rest) - int n" using o(5) m n by simp
    ultimately show ?thesis by blast
  qed
qed

lemma mergeLoopV_total:
  assumes ok: "itemsOk S"
  shows "docInv S D \<Longrightarrow> causalRun yjsMod D ops = Some (Inr d1)
    \<Longrightarrow> set ops = {op. Some op \<in> set ms} \<Longrightarrow> set ops \<subseteq> set S
    \<Longrightarrow> distinct (filter (\<lambda>m. m \<noteq> None) ms)
    \<Longrightarrow> mergeLoopV yjsMod D ms (pending ms) = Inr d1"
proof (induction "nat (pending ms)" arbitrary: D ms ops rule: less_induct)
  case less
  show ?case
  proof (cases "pending ms > 0")
    case False
    then have "{op. Some op \<in> set ms} = {}" by (intro pending_zero) simp
    with less.prems(3) have "ops = []" by simp
    with less.prems(2) have "d1 = D" by simp
    with False show ?thesis by (subst mergeLoopV.simps) simp
  next
    case True
    from less.prems(3,4) have subm: "{op. Some op \<in> set ms} \<subseteq> set S" by simp
    from mergePassV_total[OF ok less.prems(1) subm] obtain D' ms' n where
      p: "mergePassV yjsMod D ms = Inr (D', ms', n)" by blast
    from True less.prems(3) obtain a t where ops: "ops = a # t"
      by (cases ops) (auto dest: pending_zero simp: pending_def filter_empty_conv)
    with less.prems(2) have ra: "canInsertNow a D" by (auto split: if_splits)
    from ops less.prems(3) have "Some a \<in> set ms" by auto
    from mergePassV_progress[OF p this ra] have n: "0 < n" .
    from mergePassV_apart[OF p less.prems(5)] obtain pre where
      o: "causalRun yjsMod D pre = Some (Inr D')"
        "set pre \<union> {op. Some op \<in> set ms'} = {op. Some op \<in> set ms}"
        "set pre \<inter> {op. Some op \<in> set ms'} = {}"
        "distinct (filter (\<lambda>m. m \<noteq> None) ms')"
        "pending ms' = pending ms - int n" by auto
    from o(2) less.prems(3) have subp: "set pre \<subseteq> set ops" by auto
    from run_extract[OF ok less.prems(1) less.prems(4) less.prems(2) o(1) subp] obtain ops' where
      o': "causalRun yjsMod D' ops' = Some (Inr d1)" "set ops' = set ops - set pre" by auto
    from o'(2) o(2,3) less.prems(3) have e: "set ops' = {op. Some op \<in> set ms'}" by auto
    from e subm o(2) have s': "set ops' \<subseteq> set S" by auto
    from subp less.prems(4) have "set pre \<subseteq> set S" by auto
    from run_total[OF ok less.prems(1) this o(1)] have inv': "docInv S D'" by simp
    have m: "nat (pending ms') < nat (pending ms)" using o(5) n True by simp
    from less.hyps[OF m inv' o'(1) e s' o(4)]
    have "mergeLoopV yjsMod D' ms' (pending ms') = Inr d1" .
    with True p n o(5) show ?thesis by (subst mergeLoopV.simps) simp
  qed
qed

lemma mergeIntoV_total:
  assumes ok: "itemsOk S" and sub: "set ops \<subseteq> set S"
    and run: "causalRun yjsMod newDoc ops = Some (Inr d1)"
    and d: "distinct (missingSet newDoc src)" and s: "set (missingSet newDoc src) = set ops"
  shows "mergeIntoV yjsMod newDoc src = Inr d1"
proof -
  let ?ms = "map Some (missingSet newDoc src)"
  have f: "filter (\<lambda>m. m \<noteq> None) ?ms = ?ms" by (simp add: filter_map comp_def)
  have dm: "distinct (filter (\<lambda>m. m \<noteq> None) ?ms)" unfolding f using d by (simp add: distinct_map)
  have e: "set ops = {op. Some op \<in> set ?ms}" using s by auto
  from mergeLoopV_total[OF ok docInv_newDoc run e sub dm]
  show ?thesis by (simp add: mergeIntoV_def missingSet_def Let_def pending_init)
qed

text \<open>
  C1. Confluence of the YjsMod integrate, for well-anchored sets of items. Let \<open>S\<close> be a list
  of items with pairwise distinct ids and sequence numbers from 0 on that is well anchored, and
  let \<open>ops1\<close> be items of \<open>S\<close> in an order that respects causal readiness and integrates
  without failure into a fresh document, leaving \<open>d1\<close>. Then every order of the same items that
  respects causal readiness integrates without failure and leaves \<open>d1\<close> (content, version,
  length); \<open>mergeInto\<close> into a fresh document, from any document of any heap whose items with
  content are those of \<open>ops1\<close>, each once, succeeds and leaves a document that reads as \<open>d1\<close>;
  and a document built in a causally ready order from items of \<open>S\<close> that has the version of
  \<open>d1\<close> is \<open>d1\<close>. Without the anchoring condition the orders can disagree.
\<close>

theorem yjsMod_confluence:
  assumes "distinct (map ident S)" and "\<forall>x \<in> set S. 0 \<le> snd (ident x)" and "wellAnchored S"
    and "set ops1 \<subseteq> set S"
    and "causalRun yjsMod newDoc ops1 = Some (Inr d1)"
  shows "(\<forall>ops2 r2. set ops2 = set ops1 \<and> causalRun yjsMod newDoc ops2 = Some r2 \<longrightarrow> r2 = Inr d1)
       \<and> (\<forall>h src. valid h src \<and> distinct (missingSet newDoc (view h src))
                \<and> set (missingSet newDoc (view h src)) = set ops1
              \<longrightarrow> viewOut (mergeInto yjsMod h newRDoc src) = Inr d1)
       \<and> (\<forall>ops2 d2. set ops2 \<subseteq> set S \<and> causalRun yjsMod newDoc ops2 = Some (Inr d2)
              \<and> version d2 = version d1 \<longrightarrow> d2 = d1)"
proof -
  from assms(1-3) have ok: "itemsOk S" by (simp add: itemsOk_def)
  have a: "\<And>ops2 r2. set ops2 = set ops1 \<Longrightarrow> causalRun yjsMod newDoc ops2 = Some r2 \<Longrightarrow> r2 = Inr d1"
    by (rule confluence_from[OF ok docInv_newDoc assms(4) _ assms(5)])
  have b: "\<And>h src. valid h src \<Longrightarrow> distinct (missingSet newDoc (view h src))
      \<Longrightarrow> set (missingSet newDoc (view h src)) = set ops1
      \<Longrightarrow> viewOut (mergeInto yjsMod h newRDoc src) = Inr d1"
  proof -
    fix h :: "'a heap" and src
    assume v: "valid h src" and d: "distinct (missingSet newDoc (view h src))"
      and s: "set (missingSet newDoc (view h src)) = set ops1"
    from view_mergeInto[OF valid_newRDoc v, of yjsMod]
      mergeIntoV_total[OF ok assms(4) assms(5) d s]
    show "viewOut (mergeInto yjsMod h newRDoc src) = Inr d1" by (simp add: view_newRDoc)
  qed
  have c: "\<And>ops2 d2. set ops2 \<subseteq> set S \<Longrightarrow> causalRun yjsMod newDoc ops2 = Some (Inr d2)
      \<Longrightarrow> version d2 = version d1 \<Longrightarrow> d2 = d1"
    by (rule same_version_same_doc[OF ok assms(4) _ assms(5)])
  from a b c show ?thesis by blast
qed

theorem yjsMod_confluence_witness:
  "wellAnchored anchoredItems \<and> set anchoredOrder = set anchoredItems
   \<and> (\<exists>d. causalRun yjsMod newDoc anchoredItems = Some (Inr d)
          \<and> causalRun yjsMod newDoc anchoredOrder = Some (Inr d)
          \<and> valid (contentD d) (docRefs d)
          \<and> viewOut (mergeInto yjsMod (contentD d) newRDoc (docRefs d)) = Inr d
          \<and> getArray d = [''a'', ''x'', ''z'', ''y'', ''b''])"
proof -
  have a: "distinct (map ident anchoredItems)" by (simp add: anchoredItems_def makeItem_def)
  have b: "\<forall>x \<in> set anchoredItems. 0 \<le> snd (ident x)" by (simp add: anchoredItems_def makeItem_def)
  have c: "wellAnchored anchoredItems" by code_simp
  have e: "set anchoredOrder = set anchoredItems"
    by (auto simp: anchoredOrder_def anchoredItems_def)
  have "map_option (map_sum fst contentD) (causalRun yjsMod newDoc anchoredItems)
      = Some (Inr [makeItem ''a'' (''A'', 0) None None,
                   makeItem ''x'' (''B'', 0) (Some (''A'', 0)) (Some (''A'', 1)),
                   makeItem ''z'' (''B'', 1) (Some (''B'', 0)) (Some (''A'', 1)),
                   makeItem ''y'' (''C'', 0) (Some (''A'', 0)) (Some (''A'', 1)),
                   makeItem ''b'' (''A'', 1) (Some (''A'', 0)) None])" by code_simp
  then obtain d where d: "causalRun yjsMod newDoc anchoredItems = Some (Inr d)"
    and cd: "contentD d = [makeItem ''a'' (''A'', 0) None None,
                   makeItem ''x'' (''B'', 0) (Some (''A'', 0)) (Some (''A'', 1)),
                   makeItem ''z'' (''B'', 1) (Some (''B'', 0)) (Some (''A'', 1)),
                   makeItem ''y'' (''C'', 0) (Some (''A'', 0)) (Some (''A'', 1)),
                   makeItem ''b'' (''A'', 1) (Some (''A'', 0)) None]"
    by (cases "causalRun yjsMod newDoc anchoredItems"; cases "the (causalRun yjsMod newDoc anchoredItems)")
       auto
  have g: "getArray d = [''a'', ''x'', ''z'', ''y'', ''b'']"
    by (simp add: getArray_def cd makeItem_def)
  have ms: "missingSet newDoc d = contentD d"
    by (simp add: missingSet_def cd makeItem_def isInVersion_def newDoc_def)
  have vd: "view (contentD d) (docRefs d) = d" by (rule view_docRefs)
  have "distinct (missingSet newDoc d)" unfolding ms cd by (simp add: makeItem_def)
  then have md: "distinct (missingSet newDoc (view (contentD d) (docRefs d)))"
    by (simp only: vd)
  have "set (missingSet newDoc d) = set anchoredItems"
    unfolding ms cd by (auto simp: anchoredItems_def)
  then have me: "set (missingSet newDoc (view (contentD d) (docRefs d))) = set anchoredItems"
    by (simp only: vd)
  have "causalRun yjsMod newDoc anchoredOrder \<noteq> None" by code_simp
  then obtain r2 where r2: "causalRun yjsMod newDoc anchoredOrder = Some r2" by auto
  note th = yjsMod_confluence[OF a b c subset_refl d]
  from th e r2 have "r2 = Inr d" by blast
  moreover from th md me valid_docRefs[of d]
  have "viewOut (mergeInto yjsMod (contentD d) newRDoc (docRefs d)) = Inr d" by blast
  ultimately show ?thesis using c e d r2 g valid_docRefs[of d] by auto
qed

theorem yjsMod_confluence_counterexample:
  "set crossedOrder = set crossedItems
   \<and> map_option shown (causalRun yjsMod newDoc crossedItems) = Some (Inr [''a'', ''d'', ''b'', ''c''])
   \<and> map_option shown (causalRun yjsMod newDoc crossedOrder) = Some (Inr [''a'', ''c'', ''d'', ''b''])"
proof -
  have "set crossedOrder = set crossedItems" by (auto simp: crossedOrder_def crossedItems_def)
  moreover have "map_option shown (causalRun yjsMod newDoc crossedItems)
      = Some (Inr [''a'', ''d'', ''b'', ''c''])" by code_simp
  moreover have "map_option shown (causalRun yjsMod newDoc crossedOrder)
      = Some (Inr [''a'', ''c'', ''d'', ''b''])" by code_simp
  ultimately show ?thesis by simp
qed

end
